theory Spec2Isabelle
  imports Main "HOL-Library.Word"
begin

unbundle bit_operations_syntax

section \<open>PS/2 decoder and keyboard-state tracker (ps2.c)\<close>

text \<open>
  A shallow embedding of \<^verbatim>\<open>src/ps2.c\<close>. Every \<^verbatim>\<open>uint8_t\<close> is an
  \<open>8 word\<close>, so \<^verbatim>\<open>frame_bit_index++\<close> wraps and \<^verbatim>\<open>scancode_byte >>= 1\<close> is a
  logical shift. The eight file-scope variables become the fields of one record that
  each function takes and returns. The two GPIO levels read by \<^verbatim>\<open>gpio_get\<close> are
  arguments of the functions that read them.
\<close>

type_synonym u8 = "8 word"

subsection \<open>HID keycode definitions\<close>

abbreviation (input) HID_KEY_A :: u8 where "HID_KEY_A \<equiv> 0x04"
abbreviation (input) HID_KEY_B :: u8 where "HID_KEY_B \<equiv> 0x05"
abbreviation (input) HID_KEY_C :: u8 where "HID_KEY_C \<equiv> 0x06"
abbreviation (input) HID_KEY_D :: u8 where "HID_KEY_D \<equiv> 0x07"
abbreviation (input) HID_KEY_E :: u8 where "HID_KEY_E \<equiv> 0x08"
abbreviation (input) HID_KEY_F :: u8 where "HID_KEY_F \<equiv> 0x09"
abbreviation (input) HID_KEY_G :: u8 where "HID_KEY_G \<equiv> 0x0A"
abbreviation (input) HID_KEY_H :: u8 where "HID_KEY_H \<equiv> 0x0B"
abbreviation (input) HID_KEY_I :: u8 where "HID_KEY_I \<equiv> 0x0C"
abbreviation (input) HID_KEY_J :: u8 where "HID_KEY_J \<equiv> 0x0D"
abbreviation (input) HID_KEY_K :: u8 where "HID_KEY_K \<equiv> 0x0E"
abbreviation (input) HID_KEY_L :: u8 where "HID_KEY_L \<equiv> 0x0F"
abbreviation (input) HID_KEY_M :: u8 where "HID_KEY_M \<equiv> 0x10"
abbreviation (input) HID_KEY_N :: u8 where "HID_KEY_N \<equiv> 0x11"
abbreviation (input) HID_KEY_O :: u8 where "HID_KEY_O \<equiv> 0x12"
abbreviation (input) HID_KEY_P :: u8 where "HID_KEY_P \<equiv> 0x13"
abbreviation (input) HID_KEY_Q :: u8 where "HID_KEY_Q \<equiv> 0x14"
abbreviation (input) HID_KEY_R :: u8 where "HID_KEY_R \<equiv> 0x15"
abbreviation (input) HID_KEY_S :: u8 where "HID_KEY_S \<equiv> 0x16"
abbreviation (input) HID_KEY_T :: u8 where "HID_KEY_T \<equiv> 0x17"
abbreviation (input) HID_KEY_U :: u8 where "HID_KEY_U \<equiv> 0x18"
abbreviation (input) HID_KEY_V :: u8 where "HID_KEY_V \<equiv> 0x19"
abbreviation (input) HID_KEY_W :: u8 where "HID_KEY_W \<equiv> 0x1A"
abbreviation (input) HID_KEY_X :: u8 where "HID_KEY_X \<equiv> 0x1B"
abbreviation (input) HID_KEY_Y :: u8 where "HID_KEY_Y \<equiv> 0x1C"
abbreviation (input) HID_KEY_Z :: u8 where "HID_KEY_Z \<equiv> 0x1D"
abbreviation (input) HID_KEY_1 :: u8 where "HID_KEY_1 \<equiv> 0x1E"
abbreviation (input) HID_KEY_2 :: u8 where "HID_KEY_2 \<equiv> 0x1F"
abbreviation (input) HID_KEY_3 :: u8 where "HID_KEY_3 \<equiv> 0x20"
abbreviation (input) HID_KEY_4 :: u8 where "HID_KEY_4 \<equiv> 0x21"
abbreviation (input) HID_KEY_5 :: u8 where "HID_KEY_5 \<equiv> 0x22"
abbreviation (input) HID_KEY_6 :: u8 where "HID_KEY_6 \<equiv> 0x23"
abbreviation (input) HID_KEY_7 :: u8 where "HID_KEY_7 \<equiv> 0x24"
abbreviation (input) HID_KEY_8 :: u8 where "HID_KEY_8 \<equiv> 0x25"
abbreviation (input) HID_KEY_9 :: u8 where "HID_KEY_9 \<equiv> 0x26"
abbreviation (input) HID_KEY_0 :: u8 where "HID_KEY_0 \<equiv> 0x27"
abbreviation (input) HID_KEY_ENTER :: u8 where "HID_KEY_ENTER \<equiv> 0x28"
abbreviation (input) HID_KEY_ESCAPE :: u8 where "HID_KEY_ESCAPE \<equiv> 0x29"
abbreviation (input) HID_KEY_BACKSPACE :: u8 where "HID_KEY_BACKSPACE \<equiv> 0x2A"
abbreviation (input) HID_KEY_TAB :: u8 where "HID_KEY_TAB \<equiv> 0x2B"
abbreviation (input) HID_KEY_SPACE :: u8 where "HID_KEY_SPACE \<equiv> 0x2C"
abbreviation (input) HID_KEY_MINUS :: u8 where "HID_KEY_MINUS \<equiv> 0x2D"
abbreviation (input) HID_KEY_EQUAL :: u8 where "HID_KEY_EQUAL \<equiv> 0x2E"
abbreviation (input) HID_KEY_BRACKET_LEFT :: u8 where "HID_KEY_BRACKET_LEFT \<equiv> 0x2F"
abbreviation (input) HID_KEY_BRACKET_RIGHT :: u8 where "HID_KEY_BRACKET_RIGHT \<equiv> 0x30"
abbreviation (input) HID_KEY_BACKSLASH :: u8 where "HID_KEY_BACKSLASH \<equiv> 0x31"
abbreviation (input) HID_KEY_SEMICOLON :: u8 where "HID_KEY_SEMICOLON \<equiv> 0x33"
abbreviation (input) HID_KEY_APOSTROPHE :: u8 where "HID_KEY_APOSTROPHE \<equiv> 0x34"
abbreviation (input) HID_KEY_GRAVE :: u8 where "HID_KEY_GRAVE \<equiv> 0x35"
abbreviation (input) HID_KEY_COMMA :: u8 where "HID_KEY_COMMA \<equiv> 0x36"
abbreviation (input) HID_KEY_PERIOD :: u8 where "HID_KEY_PERIOD \<equiv> 0x37"
abbreviation (input) HID_KEY_SLASH :: u8 where "HID_KEY_SLASH \<equiv> 0x38"
abbreviation (input) HID_KEY_CAPS_LOCK :: u8 where "HID_KEY_CAPS_LOCK \<equiv> 0x39"
abbreviation (input) HID_KEY_F1 :: u8 where "HID_KEY_F1 \<equiv> 0x3A"
abbreviation (input) HID_KEY_F2 :: u8 where "HID_KEY_F2 \<equiv> 0x3B"
abbreviation (input) HID_KEY_F3 :: u8 where "HID_KEY_F3 \<equiv> 0x3C"
abbreviation (input) HID_KEY_F4 :: u8 where "HID_KEY_F4 \<equiv> 0x3D"
abbreviation (input) HID_KEY_F5 :: u8 where "HID_KEY_F5 \<equiv> 0x3E"
abbreviation (input) HID_KEY_F6 :: u8 where "HID_KEY_F6 \<equiv> 0x3F"
abbreviation (input) HID_KEY_F7 :: u8 where "HID_KEY_F7 \<equiv> 0x40"
abbreviation (input) HID_KEY_F8 :: u8 where "HID_KEY_F8 \<equiv> 0x41"
abbreviation (input) HID_KEY_F9 :: u8 where "HID_KEY_F9 \<equiv> 0x42"
abbreviation (input) HID_KEY_F10 :: u8 where "HID_KEY_F10 \<equiv> 0x43"
abbreviation (input) HID_KEY_F11 :: u8 where "HID_KEY_F11 \<equiv> 0x44"
abbreviation (input) HID_KEY_F12 :: u8 where "HID_KEY_F12 \<equiv> 0x45"
abbreviation (input) HID_KEY_PRINT_SCREEN :: u8 where "HID_KEY_PRINT_SCREEN \<equiv> 0x46"
abbreviation (input) HID_KEY_SCROLL_LOCK :: u8 where "HID_KEY_SCROLL_LOCK \<equiv> 0x47"
abbreviation (input) HID_KEY_PAUSE :: u8 where "HID_KEY_PAUSE \<equiv> 0x48"
abbreviation (input) HID_KEY_INSERT :: u8 where "HID_KEY_INSERT \<equiv> 0x49"
abbreviation (input) HID_KEY_HOME :: u8 where "HID_KEY_HOME \<equiv> 0x4A"
abbreviation (input) HID_KEY_PAGE_UP :: u8 where "HID_KEY_PAGE_UP \<equiv> 0x4B"
abbreviation (input) HID_KEY_DELETE :: u8 where "HID_KEY_DELETE \<equiv> 0x4C"
abbreviation (input) HID_KEY_END :: u8 where "HID_KEY_END \<equiv> 0x4D"
abbreviation (input) HID_KEY_PAGE_DOWN :: u8 where "HID_KEY_PAGE_DOWN \<equiv> 0x4E"
abbreviation (input) HID_KEY_ARROW_RIGHT :: u8 where "HID_KEY_ARROW_RIGHT \<equiv> 0x4F"
abbreviation (input) HID_KEY_ARROW_LEFT :: u8 where "HID_KEY_ARROW_LEFT \<equiv> 0x50"
abbreviation (input) HID_KEY_ARROW_DOWN :: u8 where "HID_KEY_ARROW_DOWN \<equiv> 0x51"
abbreviation (input) HID_KEY_ARROW_UP :: u8 where "HID_KEY_ARROW_UP \<equiv> 0x52"
abbreviation (input) HID_KEY_NUM_LOCK :: u8 where "HID_KEY_NUM_LOCK \<equiv> 0x53"
abbreviation (input) HID_KEY_KEYPAD_DIVIDE :: u8 where "HID_KEY_KEYPAD_DIVIDE \<equiv> 0x54"
abbreviation (input) HID_KEY_KEYPAD_MULTIPLY :: u8 where "HID_KEY_KEYPAD_MULTIPLY \<equiv> 0x55"
abbreviation (input) HID_KEY_KEYPAD_SUBTRACT :: u8 where "HID_KEY_KEYPAD_SUBTRACT \<equiv> 0x56"
abbreviation (input) HID_KEY_KEYPAD_ADD :: u8 where "HID_KEY_KEYPAD_ADD \<equiv> 0x57"
abbreviation (input) HID_KEY_KEYPAD_ENTER :: u8 where "HID_KEY_KEYPAD_ENTER \<equiv> 0x58"
abbreviation (input) HID_KEY_KEYPAD_1 :: u8 where "HID_KEY_KEYPAD_1 \<equiv> 0x59"
abbreviation (input) HID_KEY_KEYPAD_2 :: u8 where "HID_KEY_KEYPAD_2 \<equiv> 0x5A"
abbreviation (input) HID_KEY_KEYPAD_3 :: u8 where "HID_KEY_KEYPAD_3 \<equiv> 0x5B"
abbreviation (input) HID_KEY_KEYPAD_4 :: u8 where "HID_KEY_KEYPAD_4 \<equiv> 0x5C"
abbreviation (input) HID_KEY_KEYPAD_5 :: u8 where "HID_KEY_KEYPAD_5 \<equiv> 0x5D"
abbreviation (input) HID_KEY_KEYPAD_6 :: u8 where "HID_KEY_KEYPAD_6 \<equiv> 0x5E"
abbreviation (input) HID_KEY_KEYPAD_7 :: u8 where "HID_KEY_KEYPAD_7 \<equiv> 0x5F"
abbreviation (input) HID_KEY_KEYPAD_8 :: u8 where "HID_KEY_KEYPAD_8 \<equiv> 0x60"
abbreviation (input) HID_KEY_KEYPAD_9 :: u8 where "HID_KEY_KEYPAD_9 \<equiv> 0x61"
abbreviation (input) HID_KEY_KEYPAD_0 :: u8 where "HID_KEY_KEYPAD_0 \<equiv> 0x62"
abbreviation (input) HID_KEY_KEYPAD_DECIMAL :: u8 where "HID_KEY_KEYPAD_DECIMAL \<equiv> 0x63"
abbreviation (input) HID_MOD_LEFT_CTRL :: u8 where "HID_MOD_LEFT_CTRL \<equiv> 0x01"
abbreviation (input) HID_MOD_LEFT_SHIFT :: u8 where "HID_MOD_LEFT_SHIFT \<equiv> 0x02"
abbreviation (input) HID_MOD_LEFT_ALT :: u8 where "HID_MOD_LEFT_ALT \<equiv> 0x04"
abbreviation (input) HID_MOD_LEFT_GUI :: u8 where "HID_MOD_LEFT_GUI \<equiv> 0x08"
abbreviation (input) HID_MOD_RIGHT_CTRL :: u8 where "HID_MOD_RIGHT_CTRL \<equiv> 0x10"
abbreviation (input) HID_MOD_RIGHT_SHIFT :: u8 where "HID_MOD_RIGHT_SHIFT \<equiv> 0x20"
abbreviation (input) HID_MOD_RIGHT_ALT :: u8 where "HID_MOD_RIGHT_ALT \<equiv> 0x40"
abbreviation (input) HID_MOD_RIGHT_GUI :: u8 where "HID_MOD_RIGHT_GUI \<equiv> 0x80"
abbreviation (input) HID_KEY_APPLICATION :: u8 where "HID_KEY_APPLICATION \<equiv> 0x65"

subsection \<open>Scancode translation tables\<close>

text \<open>
  The C tables are 256-entry arrays with designated initialisers; an index that is not
  listed holds 0. The listed entries are kept as association lists, in source order, and
  the array read \<^verbatim>\<open>table[code]\<close> is the lookup with default 0.
\<close>

definition scancode_to_hid_entries :: "(u8 \<times> u8) list" where
  "scancode_to_hid_entries = [
    (0x01, HID_KEY_F9), (0x03, HID_KEY_F5), (0x04, HID_KEY_F3), (0x05, HID_KEY_F1),
    (0x06, HID_KEY_F2), (0x07, HID_KEY_F12), (0x09, HID_KEY_F10), (0x0A, HID_KEY_F8),
    (0x0B, HID_KEY_F6), (0x0C, HID_KEY_F4), (0x0D, HID_KEY_TAB), (0x0E, HID_KEY_GRAVE),
    (0x11, 0xFF), (0x12, 0xFE), (0x14, 0xFD), (0x15, HID_KEY_Q),
    (0x16, HID_KEY_1), (0x1A, HID_KEY_Z), (0x1B, HID_KEY_S), (0x1C, HID_KEY_A),
    (0x1D, HID_KEY_W), (0x1E, HID_KEY_2), (0x21, HID_KEY_C), (0x22, HID_KEY_X),
    (0x23, HID_KEY_D), (0x24, HID_KEY_E), (0x25, HID_KEY_4), (0x26, HID_KEY_3),
    (0x29, HID_KEY_SPACE), (0x2A, HID_KEY_V), (0x2B, HID_KEY_F), (0x2C, HID_KEY_T),
    (0x2D, HID_KEY_R), (0x2E, HID_KEY_5), (0x31, HID_KEY_N), (0x32, HID_KEY_B),
    (0x33, HID_KEY_H), (0x34, HID_KEY_G), (0x35, HID_KEY_Y), (0x36, HID_KEY_6),
    (0x3A, HID_KEY_M), (0x3B, HID_KEY_J), (0x3C, HID_KEY_U), (0x3D, HID_KEY_7),
    (0x3E, HID_KEY_8), (0x41, HID_KEY_COMMA), (0x42, HID_KEY_K), (0x43, HID_KEY_I),
    (0x44, HID_KEY_O), (0x45, HID_KEY_0), (0x46, HID_KEY_9), (0x49, HID_KEY_PERIOD),
    (0x4A, HID_KEY_SLASH), (0x4B, HID_KEY_L), (0x4C, HID_KEY_SEMICOLON), (0x4D, HID_KEY_P),
    (0x4E, HID_KEY_MINUS), (0x52, HID_KEY_APOSTROPHE), (0x54, HID_KEY_BRACKET_LEFT), (0x55, HID_KEY_EQUAL),
    (0x58, 0xFC), (0x59, 0xFB), (0x5A, HID_KEY_ENTER), (0x5B, HID_KEY_BRACKET_RIGHT),
    (0x5D, HID_KEY_BACKSLASH), (0x66, HID_KEY_BACKSPACE), (0x69, HID_KEY_KEYPAD_1), (0x6B, HID_KEY_KEYPAD_4),
    (0x6C, HID_KEY_KEYPAD_7), (0x70, HID_KEY_KEYPAD_0), (0x71, HID_KEY_KEYPAD_DECIMAL), (0x72, HID_KEY_KEYPAD_2),
    (0x73, HID_KEY_KEYPAD_5), (0x74, HID_KEY_KEYPAD_6), (0x75, HID_KEY_KEYPAD_8), (0x76, HID_KEY_ESCAPE),
    (0x77, HID_KEY_SCROLL_LOCK), (0x78, HID_KEY_F11), (0x79, HID_KEY_KEYPAD_ADD), (0x7A, HID_KEY_KEYPAD_3),
    (0x7B, HID_KEY_KEYPAD_SUBTRACT), (0x7C, HID_KEY_KEYPAD_MULTIPLY), (0x7D, HID_KEY_KEYPAD_9), (0x7E, HID_KEY_NUM_LOCK),
    (0x83, HID_KEY_F7)]"

definition extended_scancode_to_hid_entries :: "(u8 \<times> u8) list" where
  "extended_scancode_to_hid_entries = [
    (0x11, 0xFA), (0x14, 0xF9), (0x1F, 0xF8), (0x27, 0xF7),
    (0x2F, HID_KEY_APPLICATION), (0x4A, HID_KEY_KEYPAD_DIVIDE), (0x5A, HID_KEY_KEYPAD_ENTER), (0x69, HID_KEY_END),
    (0x6B, HID_KEY_ARROW_LEFT), (0x6C, HID_KEY_HOME), (0x70, HID_KEY_INSERT), (0x71, HID_KEY_DELETE),
    (0x72, HID_KEY_ARROW_DOWN), (0x74, HID_KEY_ARROW_RIGHT), (0x75, HID_KEY_ARROW_UP), (0x7A, HID_KEY_PAGE_DOWN),
    (0x7D, HID_KEY_PAGE_UP)]"

definition scancode_to_hid :: "u8 \<Rightarrow> u8" where
  "scancode_to_hid code =
     (case map_of scancode_to_hid_entries code of None \<Rightarrow> 0 | Some h \<Rightarrow> h)"

definition extended_scancode_to_hid :: "u8 \<Rightarrow> u8" where
  "extended_scancode_to_hid code =
     (case map_of extended_scancode_to_hid_entries code of None \<Rightarrow> 0 | Some h \<Rightarrow> h)"

subsection \<open>Global state\<close>

record ps2_state =
  g_modifiers :: u8
  g_keys :: "u8 list"
  g_state_changed :: bool
  frame_bit_index :: u8
  scancode_byte :: u8
  break_pending :: bool
  extended_pending :: bool
  last_clk :: bool

text \<open>
  \<^verbatim>\<open>g_keys\<close> is \<^verbatim>\<open>uint8_t[6]\<close>: a state of the program is a record whose
  \<open>g_keys\<close> has length 6.
\<close>

definition wf_state :: "ps2_state \<Rightarrow> bool" where
  "wf_state s = (length (g_keys s) = 6)"

subsection \<open>Helper functions\<close>

definition get_modifier_mask :: "u8 \<Rightarrow> u8" where
  "get_modifier_mask hid_code =
     (if hid_code = 0xFF then HID_MOD_LEFT_ALT
      else if hid_code = 0xFE then HID_MOD_LEFT_SHIFT
      else if hid_code = 0xFD then HID_MOD_LEFT_CTRL
      else if hid_code = 0xFC then 0
      else if hid_code = 0xFB then HID_MOD_RIGHT_SHIFT
      else if hid_code = 0xFA then HID_MOD_RIGHT_ALT
      else if hid_code = 0xF9 then HID_MOD_RIGHT_CTRL
      else if hid_code = 0xF8 then HID_MOD_LEFT_GUI
      else if hid_code = 0xF7 then HID_MOD_RIGHT_GUI
      else 0)"

text \<open>
  The three loops of \<^verbatim>\<open>press_key\<close> and \<^verbatim>\<open>release_key\<close> have one shape:
  \<^verbatim>\<open>for (int i = 0; i < 6; i++) if (g_keys[i] == v) { ...; return; }\<close>.
  \<open>scan_keys ks v i\<close> runs that loop from index \<open>i\<close> and returns the index at
  which the body is entered, or \<open>None\<close> when the loop runs to its end.
\<close>

function scan_keys :: "u8 list \<Rightarrow> u8 \<Rightarrow> nat \<Rightarrow> nat option" where
  "scan_keys ks v i =
     (if i < 6 then (if ks ! i = v then Some i else scan_keys ks v (i + 1)) else None)"
  by pat_completeness auto
termination
  by (relation "measure (\<lambda>(ks, v, i). 6 - i)") auto

declare scan_keys.simps [simp del]

definition press_key :: "u8 \<Rightarrow> ps2_state \<Rightarrow> ps2_state" where
  "press_key hid_code s =
     (if hid_code = 0 then s
      else
        let mod_mask = get_modifier_mask hid_code in
        if mod_mask \<noteq> 0 then
          (if g_modifiers s AND mod_mask = 0
           then s\<lparr>g_modifiers := g_modifiers s OR mod_mask, g_state_changed := True\<rparr>
           else s)
        else
          let hid_code = (if hid_code = 0xFC then HID_KEY_CAPS_LOCK else hid_code) in
          (case scan_keys (g_keys s) hid_code 0 of
             Some i \<Rightarrow> s
           | None \<Rightarrow>
               (case scan_keys (g_keys s) 0 0 of
                  Some i \<Rightarrow> s\<lparr>g_keys := (g_keys s)[i := hid_code], g_state_changed := True\<rparr>
                | None \<Rightarrow> s)))"

definition release_key :: "u8 \<Rightarrow> ps2_state \<Rightarrow> ps2_state" where
  "release_key hid_code s =
     (if hid_code = 0 then s
      else
        let mod_mask = get_modifier_mask hid_code in
        if mod_mask \<noteq> 0 then
          (if g_modifiers s AND mod_mask \<noteq> 0
           then s\<lparr>g_modifiers := g_modifiers s AND NOT mod_mask, g_state_changed := True\<rparr>
           else s)
        else
          let hid_code = (if hid_code = 0xFC then HID_KEY_CAPS_LOCK else hid_code) in
          (case scan_keys (g_keys s) hid_code 0 of
             Some i \<Rightarrow> s\<lparr>g_keys := (g_keys s)[i := 0], g_state_changed := True\<rparr>
           | None \<Rightarrow> s))"

definition handle_scancode :: "u8 \<Rightarrow> bool \<Rightarrow> bool \<Rightarrow> ps2_state \<Rightarrow> ps2_state" where
  "handle_scancode code is_break is_extended s =
     (let hid_code = (if is_extended then extended_scancode_to_hid code
                      else scancode_to_hid code) in
      if hid_code = 0 then s
      else if is_break then release_key hid_code s
      else press_key hid_code s)"

subsection \<open>Public interface\<close>

text \<open>
  \<^verbatim>\<open>ps2_init\<close> assigns every state variable, so its result does not depend on the
  state before the call; \<open>clk\<close> is the clock level \<^verbatim>\<open>gpio_get(PS2_CLOCK_PIN)\<close>
  returns at that moment.
\<close>

definition ps2_init :: "bool \<Rightarrow> ps2_state" where
  "ps2_init clk =
     \<lparr>g_modifiers = 0, g_keys = replicate 6 0, g_state_changed = False,
      frame_bit_index = 0, scancode_byte = 0, break_pending = False,
      extended_pending = False, last_clk = clk\<rparr>"

text \<open>
  One call of \<^verbatim>\<open>ps2_task\<close>: \<open>clk\<close> is the clock level read at the top of the
  call and \<open>data_bit\<close> the data level, which the code reads only on a falling edge.
\<close>

definition ps2_task :: "bool \<Rightarrow> bool \<Rightarrow> ps2_state \<Rightarrow> ps2_state" where
  "ps2_task clk data_bit s =
     (if last_clk s \<and> \<not> clk then
        (if frame_bit_index s = 0 then
           s\<lparr>frame_bit_index := frame_bit_index s + 1, last_clk := clk\<rparr>
         else if 1 \<le> frame_bit_index s \<and> frame_bit_index s \<le> 8 then
           s\<lparr>scancode_byte :=
                (if data_bit then drop_bit 1 (scancode_byte s) OR 0x80
                 else drop_bit 1 (scancode_byte s)),
             frame_bit_index := frame_bit_index s + 1, last_clk := clk\<rparr>
         else if frame_bit_index s = 9 then
           s\<lparr>frame_bit_index := frame_bit_index s + 1, last_clk := clk\<rparr>
         else if frame_bit_index s = 10 then
           (let code = scancode_byte s;
                s' = (if code = 0xF0 then s\<lparr>break_pending := True\<rparr>
                      else if code = 0xE0 then s\<lparr>extended_pending := True\<rparr>
                      else (handle_scancode code (break_pending s) (extended_pending s) s)
                             \<lparr>break_pending := False, extended_pending := False\<rparr>)
            in s'\<lparr>frame_bit_index := 0, scancode_byte := 0, last_clk := clk\<rparr>)
         else s\<lparr>frame_bit_index := frame_bit_index s + 1, last_clk := clk\<rparr>)
      else s\<lparr>last_clk := clk\<rparr>)"

definition ps2_get_modifiers :: "ps2_state \<Rightarrow> u8 \<times> ps2_state" where
  "ps2_get_modifiers s = (g_modifiers s, s)"

definition ps2_get_keys :: "ps2_state \<Rightarrow> u8 list \<times> ps2_state" where
  "ps2_get_keys s = (g_keys s, s)"

definition ps2_state_changed :: "ps2_state \<Rightarrow> bool \<times> ps2_state" where
  "ps2_state_changed s = (g_state_changed s, s)"

definition ps2_clear_changed :: "ps2_state \<Rightarrow> ps2_state" where
  "ps2_clear_changed s = s\<lparr>g_state_changed := False\<rparr>"

subsection \<open>Vocabulary of the properties\<close>

text \<open>
  The key identity a scancode translates to: the table read at the head of
  \<^verbatim>\<open>handle_scancode\<close>.
\<close>

definition key_identity :: "u8 \<Rightarrow> bool \<Rightarrow> u8" where
  "key_identity code is_extended =
     (if is_extended then extended_scancode_to_hid code else scancode_to_hid code)"

abbreviation (input) identity_of :: "u8 \<times> bool \<Rightarrow> u8" where
  "identity_of \<equiv> (\<lambda>(code, is_extended). key_identity code is_extended)"

text \<open>
  The value an ordinary key occupies a slot of \<open>g_keys\<close> with: the Caps Lock sentinel
  is replaced by the Caps Lock keycode, as both \<^verbatim>\<open>press_key\<close> and
  \<^verbatim>\<open>release_key\<close> do before they scan the array.
\<close>

definition slot_code :: "u8 \<Rightarrow> u8" where
  "slot_code hid_code = (if hid_code = 0xFC then HID_KEY_CAPS_LOCK else hid_code)"

text \<open>
  A key identity is tracked when its modifier bit is set or, for a key that is not a
  modifier, when its slot code is in the keys array.
\<close>

definition tracked :: "u8 \<Rightarrow> ps2_state \<Rightarrow> bool" where
  "tracked hid_code s =
     (if get_modifier_mask hid_code \<noteq> 0
      then g_modifiers s AND get_modifier_mask hid_code \<noteq> 0
      else slot_code hid_code \<in> set (g_keys s))"

text \<open>An ordinary key identity: mapped, not a modifier sentinel, not the Caps Lock sentinel.\<close>

definition ordinary :: "u8 \<Rightarrow> bool" where
  "ordinary hid_code = (hid_code \<noteq> 0 \<and> get_modifier_mask hid_code = 0 \<and> hid_code \<noteq> 0xFC)"

definition occupied :: "ps2_state \<Rightarrow> nat" where
  "occupied s = length (filter (\<lambda>k. k \<noteq> 0) (g_keys s))"

text \<open>The Keyboard State: the three variables the report side reads.\<close>

definition kbd_state :: "ps2_state \<Rightarrow> u8 \<times> u8 list \<times> bool" where
  "kbd_state s = (g_modifiers s, g_keys s, g_state_changed s)"

text \<open>A sequence of make codes, dispatched in order.\<close>

fun presses :: "(u8 \<times> bool) list \<Rightarrow> ps2_state \<Rightarrow> ps2_state" where
  "presses [] s = s"
| "presses ((code, is_extended) # ps) s = presses ps (handle_scancode code False is_extended s)"

text \<open>
  A sequence of calls of \<^verbatim>\<open>ps2_task\<close>, each with the clock and data levels the
  pins have during that call.
\<close>

fun run_task :: "(bool \<times> bool) list \<Rightarrow> ps2_state \<Rightarrow> ps2_state" where
  "run_task [] s = s"
| "run_task ((clk, data_bit) # xs) s = run_task xs (ps2_task clk data_bit s)"

text \<open>
  The data levels at the falling edges of a sequence of samples, \<open>prev\<close> being the
  clock level before the first sample.
\<close>

fun falling_edges :: "bool \<Rightarrow> (bool \<times> bool) list \<Rightarrow> bool list" where
  "falling_edges prev [] = []"
| "falling_edges prev ((clk, data_bit) # xs) =
     (if prev \<and> \<not> clk then data_bit # falling_edges clk xs else falling_edges clk xs)"

text \<open>
  The byte of a frame \<open>bs\<close> (its eleven bits in the order of arrival): bits 1 to 8,
  least significant first.
\<close>

definition frame_byte :: "bool list \<Rightarrow> u8" where
  "frame_byte bs = horner_sum of_bool 2 (take 8 (drop 1 bs))"

text \<open>
  The samples \<open>xs\<close>, taken after clock level \<open>prev\<close>, hold one frame that carries
  the byte \<open>code\<close>: eleven falling edges, whatever the start, parity and stop bits.
\<close>

definition carries :: "bool \<Rightarrow> (bool \<times> bool) list \<Rightarrow> u8 \<Rightarrow> bool" where
  "carries prev xs code =
     (length (falling_edges prev xs) = 11 \<and> frame_byte (falling_edges prev xs) = code)"

text \<open>
  What the stop-bit branch of \<^verbatim>\<open>ps2_task\<close> does with the frame byte \<open>code\<close>,
  but for the assignment of \<^verbatim>\<open>last_clk\<close>.
\<close>

definition stop_bit :: "u8 \<Rightarrow> ps2_state \<Rightarrow> ps2_state" where
  "stop_bit code s =
     (let s' = (if code = 0xF0 then s\<lparr>break_pending := True\<rparr>
                else if code = 0xE0 then s\<lparr>extended_pending := True\<rparr>
                else (handle_scancode code (break_pending s) (extended_pending s) s)
                       \<lparr>break_pending := False, extended_pending := False\<rparr>)
      in s'\<lparr>frame_bit_index := 0, scancode_byte := 0\<rparr>)"

text \<open>
  The value of \<^verbatim>\<open>scancode_byte\<close> after falling edges with the data levels \<open>bs\<close>,
  none of them a stop bit, the first one arriving at \<open>frame_bit_index = k\<close>: the
  data-bit branch of \<^verbatim>\<open>ps2_task\<close> shifts, the other branches leave the byte alone.
\<close>

fun rx :: "u8 \<Rightarrow> bool list \<Rightarrow> u8 \<Rightarrow> u8" where
  "rx k [] x = x"
| "rx k (b # bs) x =
     rx (k + 1) bs
       (if 1 \<le> k \<and> k \<le> 8
        then (if b then drop_bit 1 x OR 0x80 else drop_bit 1 x)
        else x)"

text \<open>
  A frame as a keyboard clocks it out: for each bit the clock is high, then low with the
  bit on the data line. Start bit 0, the byte least significant bit first, odd parity,
  stop bit 1.
\<close>

definition clock_out :: "bool list \<Rightarrow> (bool \<times> bool) list" where
  "clock_out bs = concat (map (\<lambda>b. [(True, b), (False, b)]) bs)"

definition frame_bits :: "u8 \<Rightarrow> bool list" where
  "frame_bits code =
     False # map (bit code) [0..<8] @ [even (length (filter (bit code) [0..<8])), True]"

text \<open>The operations on a running decoder, and what each does to the state.\<close>

datatype ps2_op =
  Task bool bool
  | Dispatch u8 bool bool
  | GetModifiers
  | GetKeys
  | StateChanged
  | ClearChanged

fun exec_op :: "ps2_op \<Rightarrow> ps2_state \<Rightarrow> ps2_state" where
  "exec_op (Task clk data_bit) s = ps2_task clk data_bit s"
| "exec_op (Dispatch code is_break is_extended) s = handle_scancode code is_break is_extended s"
| "exec_op GetModifiers s = snd (ps2_get_modifiers s)"
| "exec_op GetKeys s = snd (ps2_get_keys s)"
| "exec_op StateChanged s = snd (ps2_state_changed s)"
| "exec_op ClearChanged s = ps2_clear_changed s"

section \<open>The loop over the keys array\<close>

lemma scan_keys_None_iff:
  "scan_keys ks v i = None \<longleftrightarrow> (\<forall>j. i \<le> j \<and> j < 6 \<longrightarrow> ks ! j \<noteq> v)"
proof (induction ks v i rule: scan_keys.induct)
  case (1 ks v i)
  show ?case
  proof (cases "i < 6")
    case False
    then show ?thesis by (auto simp: scan_keys.simps)
  next
    case True
    show ?thesis
    proof (cases "ks ! i = v")
      case hit: True
      with True show ?thesis by (auto simp: scan_keys.simps)
    next
      case miss: False
      have "scan_keys ks v i = scan_keys ks v (i + 1)"
        using True miss by (simp add: scan_keys.simps)
      also have "\<dots> = None \<longleftrightarrow> (\<forall>j. i + 1 \<le> j \<and> j < 6 \<longrightarrow> ks ! j \<noteq> v)"
        using "1.IH" True miss by simp
      also have "\<dots> \<longleftrightarrow> (\<forall>j. i \<le> j \<and> j < 6 \<longrightarrow> ks ! j \<noteq> v)"
        using miss by (metis Suc_eq_plus1 Suc_leI le_neq_implies_less Suc_leD)
      finally show ?thesis .
    qed
  qed
qed

lemma scan_keys_Some_iff:
  "scan_keys ks v i = Some j \<longleftrightarrow>
     i \<le> j \<and> j < 6 \<and> ks ! j = v \<and> (\<forall>k. i \<le> k \<and> k < j \<longrightarrow> ks ! k \<noteq> v)"
proof (induction ks v i rule: scan_keys.induct)
  case (1 ks v i)
  show ?case
  proof (cases "i < 6")
    case False
    then show ?thesis by (auto simp: scan_keys.simps)
  next
    case True
    show ?thesis
    proof (cases "ks ! i = v")
      case hit: True
      have "scan_keys ks v i = Some i" using True hit by (simp add: scan_keys.simps)
      moreover have "(i \<le> j \<and> j < 6 \<and> ks ! j = v \<and> (\<forall>k. i \<le> k \<and> k < j \<longrightarrow> ks ! k \<noteq> v)) \<longleftrightarrow> j = i"
        using True hit by (metis le_neq_implies_less le_refl not_less)
      ultimately show ?thesis by auto
    next
      case miss: False
      have "scan_keys ks v i = scan_keys ks v (i + 1)"
        using True miss by (simp add: scan_keys.simps)
      moreover have "scan_keys ks v (i + 1) = Some j \<longleftrightarrow>
          i + 1 \<le> j \<and> j < 6 \<and> ks ! j = v \<and> (\<forall>k. i + 1 \<le> k \<and> k < j \<longrightarrow> ks ! k \<noteq> v)"
        using "1.IH" True miss by simp
      moreover have "(i + 1 \<le> j \<and> j < 6 \<and> ks ! j = v \<and> (\<forall>k. i + 1 \<le> k \<and> k < j \<longrightarrow> ks ! k \<noteq> v))
         \<longleftrightarrow> (i \<le> j \<and> j < 6 \<and> ks ! j = v \<and> (\<forall>k. i \<le> k \<and> k < j \<longrightarrow> ks ! k \<noteq> v))"
        using miss by (metis Suc_eq_plus1 Suc_leI le_neq_implies_less Suc_leD)
      ultimately show ?thesis by simp
    qed
  qed
qed

lemma scan_keys_absent:
  assumes "length ks = 6"
  shows "scan_keys ks v 0 = None \<longleftrightarrow> v \<notin> set ks"
  using assms by (auto simp: scan_keys_None_iff in_set_conv_nth)

lemma scan_keys_found:
  assumes "scan_keys ks v 0 = Some i"
  shows "i < 6" and "ks ! i = v" and "\<And>k. k < i \<Longrightarrow> ks ! k \<noteq> v"
  using assms by (simp_all add: scan_keys_Some_iff)

lemma scan_keys_update_hit:
  assumes "length ks = 6" and "i < 6"
  shows "scan_keys (ks[i := v]) v 0 \<noteq> None"
proof -
  have "v \<in> set (ks[i := v])"
    using assms by (simp add: set_update_memI)
  then show ?thesis
    using assms by (simp add: scan_keys_absent)
qed

lemma scan_keys_update_first:
  assumes "length ks = 6" and "i < 6" and "v \<notin> set ks"
  shows "scan_keys (ks[i := v]) v 0 = Some i"
proof -
  have "\<And>k. k < i \<Longrightarrow> ks[i := v] ! k \<noteq> v"
    using assms by (metis nth_list_update_neq nth_mem less_trans nat_neq_iff)
  then show ?thesis
    using assms by (simp add: scan_keys_Some_iff)
qed

subsection \<open>Modifier masks\<close>

lemma mask_or_and: "(m OR k) AND k = (k::u8)"
  by (simp add: bit_eq_iff bit_and_iff bit_or_iff) 

lemma mask_round_trip:
  assumes "m AND k = (0::u8)"
  shows "(m OR k) AND NOT k = m"
proof (rule bit_eqI)
  fix n
  have "\<not> (bit m n \<and> bit k n)"
    using assms by (metis bit_and_iff bit_0_eq bot_apply bot_bool_def)
  then show "bit ((m OR k) AND NOT k) n = bit m n"
    by (auto simp: bit_and_iff bit_or_iff bit_not_iff dest: bit_imp_le_length)
qed

lemma mask_clear_neq:
  assumes "m AND k \<noteq> (0::u8)"
  shows "m AND NOT k \<noteq> m"
proof
  assume eq: "m AND NOT k = m"
  have "m AND k = (m AND NOT k) AND k" by (simp add: eq)
  also have "\<dots> = 0" by (simp add: bit_eq_iff bit_and_iff bit_not_iff)
  finally show False using assms by simp
qed

section \<open>Press and release\<close>

lemma get_modifier_mask_slot: "get_modifier_mask h = 0 \<Longrightarrow> h \<noteq> 0 \<Longrightarrow> slot_code h \<noteq> 0"
  by (simp add: slot_code_def)

lemma handle_scancode_press:
  "handle_scancode code False is_extended s = press_key (key_identity code is_extended) s"
  by (simp add: handle_scancode_def key_identity_def press_key_def Let_def)

lemma handle_scancode_release:
  "handle_scancode code True is_extended s = release_key (key_identity code is_extended) s"
  by (simp add: handle_scancode_def key_identity_def release_key_def Let_def)

text \<open>The cases of \<^verbatim>\<open>press_key\<close> and \<^verbatim>\<open>release_key\<close>.\<close>

lemma press_key_zero: "press_key 0 s = s"
  by (simp add: press_key_def)

lemma press_key_modifier:
  assumes "h \<noteq> 0" and "get_modifier_mask h \<noteq> 0"
  shows "press_key h s =
    (if g_modifiers s AND get_modifier_mask h = 0
     then s\<lparr>g_modifiers := g_modifiers s OR get_modifier_mask h, g_state_changed := True\<rparr>
     else s)"
  using assms by (simp add: press_key_def Let_def)

lemma press_key_slot:
  assumes "h \<noteq> 0" and "get_modifier_mask h = 0"
  shows "press_key h s =
    (case scan_keys (g_keys s) (slot_code h) 0 of
       Some i \<Rightarrow> s
     | None \<Rightarrow>
         (case scan_keys (g_keys s) 0 0 of
            Some i \<Rightarrow> s\<lparr>g_keys := (g_keys s)[i := slot_code h], g_state_changed := True\<rparr>
          | None \<Rightarrow> s))"
  using assms by (auto simp: press_key_def slot_code_def Let_def split: option.splits)

lemma release_key_zero: "release_key 0 s = s"
  by (simp add: release_key_def)

lemma release_key_modifier:
  assumes "h \<noteq> 0" and "get_modifier_mask h \<noteq> 0"
  shows "release_key h s =
    (if g_modifiers s AND get_modifier_mask h \<noteq> 0
     then s\<lparr>g_modifiers := g_modifiers s AND NOT (get_modifier_mask h), g_state_changed := True\<rparr>
     else s)"
  using assms by (simp add: release_key_def Let_def)

lemma release_key_slot:
  assumes "h \<noteq> 0" and "get_modifier_mask h = 0"
  shows "release_key h s =
    (case scan_keys (g_keys s) (slot_code h) 0 of
       Some i \<Rightarrow> s\<lparr>g_keys := (g_keys s)[i := 0], g_state_changed := True\<rparr>
     | None \<Rightarrow> s)"
  using assms by (auto simp: release_key_def slot_code_def Let_def split: option.splits)

lemma press_key_idem:
  assumes wf: "wf_state s"
  shows "press_key h (press_key h s) = press_key h s"
proof (cases "h = 0")
  case True
  then show ?thesis by (simp add: press_key_zero)
next
  case nz: False
  show ?thesis
  proof (cases "get_modifier_mask h = 0")
    case False
    with nz show ?thesis
      by (simp add: press_key_modifier mask_or_and)
  next
    case True
    have ps: "press_key h s =
      (case scan_keys (g_keys s) (slot_code h) 0 of
         Some i \<Rightarrow> s
       | None \<Rightarrow>
           (case scan_keys (g_keys s) 0 0 of
              Some i \<Rightarrow> s\<lparr>g_keys := (g_keys s)[i := slot_code h], g_state_changed := True\<rparr>
            | None \<Rightarrow> s))"
      by (rule press_key_slot [OF nz True])
    show ?thesis
    proof (cases "scan_keys (g_keys s) (slot_code h) 0")
      case (Some i)
      then have "press_key h s = s" by (simp add: ps)
      then show ?thesis by simp
    next
      case None
      show ?thesis
      proof (cases "scan_keys (g_keys s) 0 0")
        case none0: None
        with None have "press_key h s = s" by (simp add: ps)
        then show ?thesis by simp
      next
        case (Some i)
        then have i: "i < 6" by (rule scan_keys_found)
        define s' where "s' = s\<lparr>g_keys := (g_keys s)[i := slot_code h], g_state_changed := True\<rparr>"
        have eq: "press_key h s = s'"
          using None Some by (simp add: ps s'_def)
        have "scan_keys (g_keys s') (slot_code h) 0 \<noteq> None"
          using wf i by (simp add: scan_keys_update_hit wf_state_def s'_def)
        then have "press_key h s' = s'"
          by (auto simp: press_key_slot [OF nz True])
        then show ?thesis
          by (simp add: eq)
      qed
    qed
  qed
qed

lemma release_key_untracked:
  assumes wf: "wf_state s" and un: "\<not> tracked h s"
  shows "release_key h s = s"
proof (cases "h = 0")
  case True
  then show ?thesis by (simp add: release_key_zero)
next
  case nz: False
  show ?thesis
  proof (cases "get_modifier_mask h = 0")
    case False
    with nz un show ?thesis
      by (simp add: release_key_modifier tracked_def)
  next
    case True
    have "scan_keys (g_keys s) (slot_code h) 0 = None"
      using wf un True by (simp add: scan_keys_absent tracked_def wf_state_def)
    then show ?thesis
      by (simp add: release_key_slot [OF nz True])
  qed
qed

subsection \<open>A press followed by a release\<close>

lemma release_press_untracked:
  assumes wf: "wf_state s" and nz: "h \<noteq> 0" and un: "\<not> tracked h s"
  shows "g_keys (release_key h (press_key h s)) = g_keys s"
    and "g_modifiers (release_key h (press_key h s)) = g_modifiers s"
proof -
  have len: "length (g_keys s) = 6" using wf by (simp add: wf_state_def)
  show "g_keys (release_key h (press_key h s)) = g_keys s"
  proof (cases "get_modifier_mask h = 0")
    case False
    with nz show ?thesis
      by (simp add: press_key_modifier release_key_modifier)
  next
    case True
    have absent: "slot_code h \<notin> set (g_keys s)"
      using un True by (simp add: tracked_def)
    then have none: "scan_keys (g_keys s) (slot_code h) 0 = None"
      using len by (simp add: scan_keys_absent)
    show ?thesis
    proof (cases "scan_keys (g_keys s) 0 0")
      case None
      then have "press_key h s = s"
        using none by (simp add: press_key_slot [OF nz True])
      then show ?thesis
        using none by (simp add: release_key_slot [OF nz True])
    next
      case (Some i)
      then have i: "i < 6" and zero: "g_keys s ! i = 0"
        by (rule scan_keys_found)+
      define s' where "s' = s\<lparr>g_keys := (g_keys s)[i := slot_code h], g_state_changed := True\<rparr>"
      have p: "press_key h s = s'"
        using none Some by (simp add: press_key_slot [OF nz True] s'_def)
      have "scan_keys (g_keys s') (slot_code h) 0 = Some i"
        using len i absent by (simp add: s'_def scan_keys_update_first)
      then have "g_keys (release_key h s') = (g_keys s')[i := 0]"
        by (simp add: release_key_slot [OF nz True])
      also have "\<dots> = g_keys s"
        using zero by (simp add: s'_def) (metis list_update_id)
      finally show ?thesis by (simp add: p)
    qed
  qed
  show "g_modifiers (release_key h (press_key h s)) = g_modifiers s"
  proof (cases "get_modifier_mask h = 0")
    case True
    have "g_modifiers (press_key h s) = g_modifiers s"
      by (simp add: press_key_slot [OF nz True] split: option.splits)
    moreover have "\<And>t. g_modifiers (release_key h t) = g_modifiers t"
      by (simp add: release_key_slot [OF nz True] split: option.splits)
    ultimately show ?thesis by simp
  next
    case False
    have clear: "g_modifiers s AND get_modifier_mask h = 0"
      using un False by (simp add: tracked_def)
    show ?thesis
      using nz False clear
      by (simp add: press_key_modifier release_key_modifier mask_or_and mask_round_trip)
  qed
qed

lemma release_press_tracked:
  assumes wf: "wf_state s" and nz: "h \<noteq> 0" and tr: "tracked h s"
  shows "g_keys (release_key h (press_key h s)) \<noteq> g_keys s
       \<or> g_modifiers (release_key h (press_key h s)) \<noteq> g_modifiers s"
proof (cases "get_modifier_mask h = 0")
  case False
  have set: "g_modifiers s AND get_modifier_mask h \<noteq> 0"
    using tr False by (simp add: tracked_def)
  then have "g_modifiers (release_key h (press_key h s)) = g_modifiers s AND NOT (get_modifier_mask h)"
    using nz False by (simp add: press_key_modifier release_key_modifier)
  then show ?thesis
    using mask_clear_neq [OF set] by simp
next
  case True
  have len: "length (g_keys s) = 6" using wf by (simp add: wf_state_def)
  have c: "slot_code h \<noteq> 0"
    using True nz by (rule get_modifier_mask_slot)
  have "slot_code h \<in> set (g_keys s)"
    using tr True by (simp add: tracked_def)
  then obtain i where some: "scan_keys (g_keys s) (slot_code h) 0 = Some i"
    using len by (metis scan_keys_absent option.exhaust)
  then have i: "i < 6" and at: "g_keys s ! i = slot_code h"
    by (rule scan_keys_found)+
  have "press_key h s = s"
    using some by (simp add: press_key_slot [OF nz True])
  then have "g_keys (release_key h (press_key h s)) = (g_keys s)[i := 0]"
    using some by (simp add: release_key_slot [OF nz True])
  moreover have "(g_keys s)[i := 0] ! i \<noteq> g_keys s ! i"
    using i len at c by simp
  ultimately show ?thesis by metis
qed

section \<open>Dispatch\<close>

lemma press_key_flag:
  "(g_modifiers (press_key h s) \<noteq> g_modifiers s \<or> g_keys (press_key h s) \<noteq> g_keys s
      \<longrightarrow> g_state_changed (press_key h s))
   \<and> (g_state_changed s \<longrightarrow> g_state_changed (press_key h s))"
  by (auto simp: press_key_def Let_def split: option.splits)

lemma release_key_flag:
  "(g_modifiers (release_key h s) \<noteq> g_modifiers s \<or> g_keys (release_key h s) \<noteq> g_keys s
      \<longrightarrow> g_state_changed (release_key h s))
   \<and> (g_state_changed s \<longrightarrow> g_state_changed (release_key h s))"
  by (auto simp: release_key_def Let_def split: option.splits)

lemma handle_scancode_flag:
  "(g_modifiers (handle_scancode c b e s) \<noteq> g_modifiers s
      \<or> g_keys (handle_scancode c b e s) \<noteq> g_keys s
      \<longrightarrow> g_state_changed (handle_scancode c b e s))
   \<and> (g_state_changed s \<longrightarrow> g_state_changed (handle_scancode c b e s))"
proof (cases b)
  case True
  then show ?thesis
    using release_key_flag [of "key_identity c e" s] by (simp add: handle_scancode_release)
next
  case False
  then show ?thesis
    using press_key_flag [of "key_identity c e" s] by (simp add: handle_scancode_press)
qed

text \<open>What a call of ps2_task does to the Keyboard State.\<close>

lemma ps2_task_kbd:
  "g_modifiers (ps2_task clk d s) =
     (if last_clk s \<and> \<not> clk \<and> frame_bit_index s = 10
         \<and> scancode_byte s \<noteq> 0xF0 \<and> scancode_byte s \<noteq> 0xE0
      then g_modifiers (handle_scancode (scancode_byte s) (break_pending s) (extended_pending s) s)
      else g_modifiers s)"
  "g_keys (ps2_task clk d s) =
     (if last_clk s \<and> \<not> clk \<and> frame_bit_index s = 10
         \<and> scancode_byte s \<noteq> 0xF0 \<and> scancode_byte s \<noteq> 0xE0
      then g_keys (handle_scancode (scancode_byte s) (break_pending s) (extended_pending s) s)
      else g_keys s)"
  "g_state_changed (ps2_task clk d s) =
     (if last_clk s \<and> \<not> clk \<and> frame_bit_index s = 10
         \<and> scancode_byte s \<noteq> 0xF0 \<and> scancode_byte s \<noteq> 0xE0
      then g_state_changed (handle_scancode (scancode_byte s) (break_pending s) (extended_pending s) s)
      else g_state_changed s)"
  by (simp_all add: ps2_task_def Let_def)

lemma ps2_task_flag:
  "(g_modifiers (ps2_task clk d s) \<noteq> g_modifiers s \<or> g_keys (ps2_task clk d s) \<noteq> g_keys s
      \<longrightarrow> g_state_changed (ps2_task clk d s))
   \<and> (g_state_changed s \<longrightarrow> g_state_changed (ps2_task clk d s))"
  using handle_scancode_flag [of "scancode_byte s" "break_pending s" "extended_pending s" s]
  by (simp add: ps2_task_kbd)

lemma presses_append: "presses (ps @ qs) s = presses qs (presses ps s)"
  by (induction ps s rule: presses.induct) simp_all

lemma presses_single: "presses [p] s = handle_scancode (fst p) False (snd p) s"
  by (cases p) simp

lemma press_key_fresh_slot:
  assumes len: "length hs < 6"
    and keys: "g_keys s = hs @ replicate (6 - length hs) 0"
    and nz: "0 \<notin> set hs"
    and ord: "ordinary h"
    and fresh: "h \<notin> set hs"
  shows "g_keys (press_key h s) = (hs @ [h]) @ replicate (6 - length (hs @ [h])) 0"
proof -
  from ord have h0: "h \<noteq> 0" and m: "get_modifier_mask h = 0" and sc: "slot_code h = h"
    by (simp_all add: ordinary_def slot_code_def)
  have len6: "length (g_keys s) = 6"
    using len by (simp add: keys)
  have "h \<notin> set (g_keys s)"
    using fresh h0 by (auto simp: keys)
  then have none: "scan_keys (g_keys s) h 0 = None"
    using len6 by (simp add: scan_keys_absent)
  have at: "g_keys s ! length hs = 0"
    using len by (simp add: keys nth_append)
  have before: "\<And>k. k < length hs \<Longrightarrow> g_keys s ! k \<noteq> 0"
    using nz by (metis keys nth_append nth_mem)
  have some: "scan_keys (g_keys s) 0 0 = Some (length hs)"
    using len at before by (simp add: scan_keys_Some_iff)
  have "g_keys (press_key h s) = (g_keys s)[length hs := h]"
    using none some by (simp add: press_key_slot [OF h0 m] sc)
  also have "\<dots> = hs @ (replicate (6 - length hs) 0)[0 := h]"
    by (simp add: keys list_update_append)
  also have "replicate (6 - length hs) (0::u8) = 0 # replicate (6 - length (hs @ [h])) 0"
    using len by (cases "6 - length hs") simp_all
  finally show ?thesis by simp
qed

lemma keys_after_presses:
  assumes "g_keys s = replicate 6 0"
    and "length ps \<le> 6"
    and "distinct (map identity_of ps)"
    and "\<forall>p\<in>set ps. ordinary (identity_of p)"
  shows "g_keys (presses ps s) = map identity_of ps @ replicate (6 - length ps) 0"
  using assms(2-4)
proof (induction ps rule: rev_induct)
  case Nil
  then show ?case by (simp add: assms(1))
next
  case (snoc p ps)
  obtain c e where p: "p = (c, e)" by (cases p)
  define hs where "hs = map identity_of ps"
  have ih: "g_keys (presses ps s) = hs @ replicate (6 - length hs) 0"
    using snoc by (simp add: hs_def)
  have len: "length hs < 6" using snoc.prems by (simp add: hs_def)
  have nz: "0 \<notin> set hs"
    using snoc.prems(3) by (auto simp: hs_def ordinary_def)
  have ord: "ordinary (key_identity c e)"
    using snoc.prems(3) by (simp add: p)
  have fresh: "key_identity c e \<notin> set hs"
    using snoc.prems(2) by (simp add: hs_def p)
  have "g_keys (presses (ps @ [p]) s) = g_keys (press_key (key_identity c e) (presses ps s))"
    by (simp add: presses_append p handle_scancode_press)
  also have "\<dots> = (hs @ [key_identity c e]) @ replicate (6 - length (hs @ [key_identity c e])) 0"
    by (rule press_key_fresh_slot [OF len ih nz ord fresh])
  finally show ?case by (simp add: hs_def p)
qed

lemma press_key_full:
  assumes "length (g_keys s) = 6" and "0 \<notin> set (g_keys s)"
    and "ordinary h" and "h \<notin> set (g_keys s)"
  shows "press_key h s = s"
proof -
  from assms(3) have h0: "h \<noteq> 0" and m: "get_modifier_mask h = 0" and sc: "slot_code h = h"
    by (simp_all add: ordinary_def slot_code_def)
  have "scan_keys (g_keys s) h 0 = None" "scan_keys (g_keys s) 0 0 = None"
    using assms by (simp_all add: scan_keys_absent)
  then show ?thesis
    by (simp add: press_key_slot [OF h0 m] sc)
qed

lemma press_key_modifier_keys:
  "get_modifier_mask h \<noteq> 0 \<Longrightarrow> g_keys (press_key h s) = g_keys s"
  by (simp add: press_key_def Let_def)

lemma release_key_modifier_keys:
  "get_modifier_mask h \<noteq> 0 \<Longrightarrow> g_keys (release_key h s) = g_keys s"
  by (simp add: release_key_def Let_def)

lemma press_key_other_modifiers:
  "get_modifier_mask h = 0 \<Longrightarrow> g_modifiers (press_key h s) = g_modifiers s"
  by (simp add: press_key_def Let_def split: option.splits)

lemma release_key_other_modifiers:
  "get_modifier_mask h = 0 \<Longrightarrow> g_modifiers (release_key h s) = g_modifiers s"
  by (simp add: release_key_def Let_def split: option.splits)

lemma handle_scancode_modifier_keys:
  "get_modifier_mask (key_identity c e) \<noteq> 0 \<Longrightarrow> g_keys (handle_scancode c b e s) = g_keys s"
  by (cases b)
    (simp_all add: handle_scancode_press handle_scancode_release press_key_modifier_keys
      release_key_modifier_keys)

lemma handle_scancode_other_modifiers:
  "get_modifier_mask (key_identity c e) = 0 \<Longrightarrow>
     g_modifiers (handle_scancode c b e s) = g_modifiers s"
  by (cases b)
    (simp_all add: handle_scancode_press handle_scancode_release press_key_other_modifiers
      release_key_other_modifiers)

lemma mask_cleared: "(m AND NOT k) AND k = (0::u8)"
  by (simp add: bit_eq_iff bit_and_iff bit_not_iff)

lemma release_key_clears:
  "h \<noteq> 0 \<Longrightarrow> get_modifier_mask h \<noteq> 0 \<Longrightarrow>
     g_modifiers (release_key h s) AND get_modifier_mask h = 0"
  by (simp add: release_key_modifier mask_cleared)

lemma press_key_present:
  assumes "length (g_keys s) = 6" and "h \<noteq> 0" and "get_modifier_mask h = 0"
    and "0 \<in> set (g_keys s) \<or> slot_code h \<in> set (g_keys s)"
  shows "slot_code h \<in> set (g_keys (press_key h s))"
proof (cases "scan_keys (g_keys s) (slot_code h) 0")
  case (Some i)
  then have "slot_code h \<in> set (g_keys s)"
    using assms(1) by (metis scan_keys_absent option.distinct(1))
  then show ?thesis
    using Some by (simp add: press_key_slot [OF assms(2,3)])
next
  case None
  then have "slot_code h \<notin> set (g_keys s)"
    using assms(1) by (simp add: scan_keys_absent)
  then have "0 \<in> set (g_keys s)" using assms(4) by simp
  then obtain i where some: "scan_keys (g_keys s) 0 0 = Some i"
    using assms(1) by (metis scan_keys_absent option.exhaust)
  then have "i < 6" by (rule scan_keys_found)
  then show ?thesis
    using None some assms(1) by (simp add: press_key_slot [OF assms(2,3)] set_update_memI)
qed

lemma id_left_shift: "key_identity 0x12 False = 0xFE"
  by code_simp

lemma id_a: "key_identity 0x1C False = HID_KEY_A"
  by code_simp

section \<open>The frame decoder\<close>

subsection \<open>The dispatch leaves the decoder fields alone\<close>

lemma handle_scancode_decoder [simp]:
  "handle_scancode c b e (s\<lparr>frame_bit_index := i\<rparr>) = (handle_scancode c b e s)\<lparr>frame_bit_index := i\<rparr>"
  "handle_scancode c b e (s\<lparr>scancode_byte := x\<rparr>) = (handle_scancode c b e s)\<lparr>scancode_byte := x\<rparr>"
  "handle_scancode c b e (s\<lparr>last_clk := l\<rparr>) = (handle_scancode c b e s)\<lparr>last_clk := l\<rparr>"
  "handle_scancode c b e (s\<lparr>break_pending := p\<rparr>) = (handle_scancode c b e s)\<lparr>break_pending := p\<rparr>"
  "handle_scancode c b e (s\<lparr>extended_pending := q\<rparr>) = (handle_scancode c b e s)\<lparr>extended_pending := q\<rparr>"
  by (simp_all add: handle_scancode_def press_key_def release_key_def Let_def split: option.splits)

lemma handle_scancode_decoder_fields [simp]:
  "frame_bit_index (handle_scancode c b e s) = frame_bit_index s"
  "scancode_byte (handle_scancode c b e s) = scancode_byte s"
  "last_clk (handle_scancode c b e s) = last_clk s"
  "break_pending (handle_scancode c b e s) = break_pending s"
  "extended_pending (handle_scancode c b e s) = extended_pending s"
  by (simp_all add: handle_scancode_def press_key_def release_key_def Let_def split: option.splits)

lemma stop_bit_decoder:
  "stop_bit c (s\<lparr>last_clk := l\<rparr>) = (stop_bit c s)\<lparr>last_clk := l\<rparr>"
  "stop_bit c (s\<lparr>scancode_byte := x\<rparr>) = stop_bit c s"
  "stop_bit c (s\<lparr>frame_bit_index := i\<rparr>) = stop_bit c s"
  by (simp_all add: stop_bit_def Let_def)

lemma ps2_task_idle:
  "\<not> (last_clk s \<and> \<not> clk) \<Longrightarrow> ps2_task clk d s = s\<lparr>last_clk := clk\<rparr>"
  by (cases "last_clk s"; cases clk; simp add: ps2_task_def)

lemma ps2_task_edge:
  assumes "last_clk s" and "frame_bit_index s < 10"
  shows "ps2_task False d s =
     s\<lparr>scancode_byte :=
          (if 1 \<le> frame_bit_index s \<and> frame_bit_index s \<le> 8
           then (if d then drop_bit 1 (scancode_byte s) OR 0x80 else drop_bit 1 (scancode_byte s))
           else scancode_byte s),
       frame_bit_index := frame_bit_index s + 1, last_clk := False\<rparr>"
  using assms by (auto simp: ps2_task_def)

lemma ps2_task_stop:
  assumes "last_clk s" and "frame_bit_index s = 10"
  shows "ps2_task False d s = (stop_bit (scancode_byte s) s)\<lparr>last_clk := False\<rparr>"
  using assms by (simp add: ps2_task_def stop_bit_def Let_def)

subsection \<open>Running the decoder over a frame\<close>

lemma run_task_no_edge:
  "falling_edges (last_clk s) xs = [] \<Longrightarrow>
     run_task xs s = s\<lparr>last_clk := (if xs = [] then last_clk s else fst (last xs))\<rparr>"
proof (induction xs arbitrary: s)
  case Nil
  then show ?case by simp
next
  case (Cons x xs)
  obtain clk d where x: "x = (clk, d)" by (cases x)
  from Cons.prems have idle: "\<not> (last_clk s \<and> \<not> clk)" and rest: "falling_edges clk xs = []"
    by (auto simp: x split: if_splits)
  have "run_task (x # xs) s = run_task xs (s\<lparr>last_clk := clk\<rparr>)"
    by (simp add: x ps2_task_idle [OF idle])
  also have "\<dots> = s\<lparr>last_clk := (if xs = [] then clk else fst (last xs))\<rparr>"
    using Cons.IH [of "s\<lparr>last_clk := clk\<rparr>"] rest by simp
  finally show ?case by (simp add: x)
qed

lemma index_succ:
  assumes "(k::u8) < 10"
  shows "unat (k + 1) = Suc (unat k)" and "k + 1 \<le> 10"
proof -
  have "unat k < 10"
    using assms by (simp add: word_less_nat_alt)
  then show "unat (k + 1) = Suc (unat k)"
    by (simp add: unat_word_ariths)
  then show "k + 1 \<le> 10"
    using \<open>unat k < 10\<close> by (simp add: word_le_nat_alt)
qed

lemma index_cases:
  assumes "(k::u8) \<le> 10"
  shows "k < 10 \<or> k = 10"
  using assms by auto

lemma index_bound:
  assumes "(k::u8) \<le> 10"
  shows "unat k \<le> 10"
  using assms by (simp add: word_le_nat_alt)

lemma run_task_frame_from:
  assumes "frame_bit_index s \<le> 10"
    and "length (falling_edges (last_clk s) xs) = 11 - unat (frame_bit_index s)"
  shows "run_task xs s =
     (stop_bit (rx (frame_bit_index s) (butlast (falling_edges (last_clk s) xs)) (scancode_byte s)) s)
       \<lparr>last_clk := fst (last xs)\<rparr>"
  using assms
proof (induction xs arbitrary: s)
  case Nil
  then have "unat (frame_bit_index s) \<le> 10" by (simp add: index_bound)
  with Nil show ?case by simp
next
  case (Cons x xs)
  obtain clk d where x: "x = (clk, d)" by (cases x)
  have bound: "unat (frame_bit_index s) \<le> 10"
    using Cons.prems(1) by (rule index_bound)
  show ?case
  proof (cases "last_clk s \<and> \<not> clk")
    case False
    define s' where "s' = s\<lparr>last_clk := clk\<rparr>"
    have step: "run_task (x # xs) s = run_task xs s'"
      using False by (simp add: x ps2_task_idle s'_def)
    have edges: "falling_edges (last_clk s) (x # xs) = falling_edges (last_clk s') xs"
      using False by (auto simp: x s'_def)
    then have "length (falling_edges (last_clk s') xs) = 11 - unat (frame_bit_index s')"
      using Cons.prems(2) by (simp add: s'_def)
    moreover have "frame_bit_index s' \<le> 10"
      using Cons.prems(1) by (simp add: s'_def)
    ultimately have ih: "run_task xs s' =
       (stop_bit (rx (frame_bit_index s') (butlast (falling_edges (last_clk s') xs)) (scancode_byte s')) s')
         \<lparr>last_clk := fst (last xs)\<rparr>"
      by (rule Cons.IH [rotated])
    have "xs \<noteq> []"
      using Cons.prems(2) bound edges by (auto simp: s'_def)
    then have l: "last (x # xs) = last xs" by simp
    have f: "frame_bit_index s' = frame_bit_index s" "scancode_byte s' = scancode_byte s"
      by (simp_all add: s'_def)
    have st: "\<And>c. (stop_bit c s')\<lparr>last_clk := fst (last xs)\<rparr>
        = (stop_bit c s)\<lparr>last_clk := fst (last xs)\<rparr>"
      by (simp add: s'_def stop_bit_decoder)
    show ?thesis
      by (simp only: step ih edges l f st)
  next
    case True
    then have clk: "clk = False" and high: "last_clk s" by simp_all
    have edges: "falling_edges (last_clk s) (x # xs) = d # falling_edges False xs"
      using True by (simp add: x)
    show ?thesis
    proof (cases "frame_bit_index s = 10")
      case stop: True
      define s' where "s' = (stop_bit (scancode_byte s) s)\<lparr>last_clk := False\<rparr>"
      have step: "run_task (x # xs) s = run_task xs s'"
        by (simp add: x clk s'_def ps2_task_stop [OF high stop])
      have none: "falling_edges False xs = []"
        using Cons.prems(2) stop by (simp add: edges)
      then have "falling_edges (last_clk s') xs = []"
        by (simp add: s'_def)
      then have "run_task xs s' = s'\<lparr>last_clk := (if xs = [] then last_clk s' else fst (last xs))\<rparr>"
        by (rule run_task_no_edge)
      also have "\<dots> = (stop_bit (scancode_byte s) s)\<lparr>last_clk := fst (last (x # xs))\<rparr>"
        by (simp add: s'_def x clk)
      finally show ?thesis
        by (simp add: step edges none)
    next
      case False
      then have lt: "frame_bit_index s < 10"
        using Cons.prems(1) index_cases by blast
      define nb where "nb =
          (if 1 \<le> frame_bit_index s \<and> frame_bit_index s \<le> 8
           then (if d then drop_bit 1 (scancode_byte s) OR 0x80 else drop_bit 1 (scancode_byte s))
           else scancode_byte s)"
      define s' where "s' = s\<lparr>scancode_byte := nb,
          frame_bit_index := frame_bit_index s + 1, last_clk := False\<rparr>"
      have step: "run_task (x # xs) s = run_task xs s'"
        by (simp add: x clk s'_def nb_def ps2_task_edge [OF high lt])
      have len: "length (falling_edges (last_clk s') xs) = 11 - unat (frame_bit_index s')"
        using Cons.prems(2) bound by (simp add: edges s'_def index_succ [OF lt])
      have le: "frame_bit_index s' \<le> 10"
        by (simp add: s'_def index_succ [OF lt])
      have ih: "run_task xs s' =
         (stop_bit (rx (frame_bit_index s') (butlast (falling_edges (last_clk s') xs)) (scancode_byte s')) s')
           \<lparr>last_clk := fst (last xs)\<rparr>"
        using le len by (rule Cons.IH)
      have "unat (frame_bit_index s') \<le> 10"
        using le by (rule index_bound)
      then have more: "falling_edges False xs \<noteq> []"
        using len by (auto simp: s'_def)
      then have "xs \<noteq> []" by auto
      then have l: "last (x # xs) = last xs" by simp
      have r: "rx (frame_bit_index s') (butlast (falling_edges (last_clk s') xs)) (scancode_byte s')
          = rx (frame_bit_index s) (butlast (d # falling_edges False xs)) (scancode_byte s)"
        using more by (simp add: s'_def nb_def)
      have st: "\<And>c. (stop_bit c s')\<lparr>last_clk := fst (last xs)\<rparr>
          = (stop_bit c s)\<lparr>last_clk := fst (last xs)\<rparr>"
        by (simp add: s'_def stop_bit_decoder)
      show ?thesis
        by (simp only: step ih edges l r st)
    qed
  qed
qed

subsection \<open>The byte assembled from the data bits\<close>

lemma bit_128: "bit (128::int) n \<longleftrightarrow> n = 7"
proof -
  have "(128::int) = 2 ^ 7" by simp
  then show ?thesis by (simp only: bit_exp_iff) auto
qed

lemma bit_shift_in:
  "bit (if b then drop_bit 1 (x::u8) OR 0x80 else drop_bit 1 x) n
     = (if n = 7 then b else n < 7 \<and> bit x (Suc n))"
  by (auto simp: bit_or_iff bit_drop_bit_eq bit_128 dest: bit_imp_le_length)

lemma frame_byte_bit:
  "bit (frame_byte bs) n \<longleftrightarrow> n < 8 \<and> Suc n < length bs \<and> bs ! Suc n"
  by (auto simp: frame_byte_def bit_horner_sum_bit_iff)

lemma eleven_bits:
  assumes "length bs = 11"
  obtains b0 b1 b2 b3 b4 b5 b6 b7 b8 b9 b10 :: bool
  where "bs = [b0, b1, b2, b3, b4, b5, b6, b7, b8, b9, b10]"
  using assms by (auto simp: length_Suc_conv eval_nat_numeral)

lemma rx_frame_byte:
  assumes "length bs = 11"
  shows "rx 0 (butlast bs) x = frame_byte bs"
proof -
  obtain b0 b1 b2 b3 b4 b5 b6 b7 b8 b9 b10
    where bs: "bs = [b0, b1, b2, b3, b4, b5, b6, b7, b8, b9, b10]"
    using assms by (rule eleven_bits)
  show ?thesis
  proof (rule bit_eqI)
    fix n :: nat
    show "bit (rx 0 (butlast bs) x) n = bit (frame_byte bs) n"
    proof (cases "n < 8")
      case True
      then consider "n = 0" | "n = 1" | "n = 2" | "n = 3" | "n = 4" | "n = 5" | "n = 6" | "n = 7"
        by linarith
      then show ?thesis
        by cases (simp_all add: bs frame_byte_bit bit_shift_in)
    next
      case False
      then show ?thesis
        by (auto simp: frame_byte_bit dest: bit_imp_le_length)
    qed
  qed
qed

subsection \<open>Frames and prefixes\<close>

lemma run_task_append: "run_task (xs @ ys) s = run_task ys (run_task xs s)"
  by (induction xs s rule: run_task.induct) simp_all

lemma run_task_frame:
  assumes "frame_bit_index s = 0" and "length (falling_edges (last_clk s) xs) = 11"
  shows "run_task xs s =
     (stop_bit (frame_byte (falling_edges (last_clk s) xs)) s)\<lparr>last_clk := fst (last xs)\<rparr>"
proof -
  have "run_task xs s =
     (stop_bit (rx (frame_bit_index s) (butlast (falling_edges (last_clk s) xs)) (scancode_byte s)) s)
       \<lparr>last_clk := fst (last xs)\<rparr>"
    using assms by (intro run_task_frame_from) simp_all
  then show ?thesis
    using assms by (simp add: rx_frame_byte)
qed

lemma run_task_carries:
  assumes "frame_bit_index s = 0" and "carries (last_clk s) xs code"
  shows "run_task xs s = (stop_bit code s)\<lparr>last_clk := fst (last xs)\<rparr>"
  using assms run_task_frame [of s xs] by (simp add: carries_def)

lemma stop_bit_prefix:
  "stop_bit 0xF0 s = s\<lparr>break_pending := True, frame_bit_index := 0, scancode_byte := 0\<rparr>"
  "stop_bit 0xE0 s = s\<lparr>extended_pending := True, frame_bit_index := 0, scancode_byte := 0\<rparr>"
  by (simp_all add: stop_bit_def)

lemma stop_bit_terminal:
  assumes "code \<noteq> 0xF0" and "code \<noteq> 0xE0"
  shows "stop_bit code s =
     (handle_scancode code (break_pending s) (extended_pending s) s)
       \<lparr>break_pending := False, extended_pending := False,
        frame_bit_index := 0, scancode_byte := 0\<rparr>"
  using assms by (simp add: stop_bit_def)

lemma extended_break_frames:
  assumes idx: "frame_bit_index t = 0"
    and flags: "\<not> break_pending t" "\<not> extended_pending t"
    and S: "S \<noteq> 0xF0" "S \<noteq> 0xE0"
    and f1: "carries (last_clk t) xs1 0xE0"
    and f2: "carries (fst (last xs1)) xs2 0xF0"
    and f3: "carries (fst (last xs2)) xs3 S"
  shows "run_task (xs1 @ xs2 @ xs3) t =
     (handle_scancode S True True t)\<lparr>frame_bit_index := 0, scancode_byte := 0,
        last_clk := fst (last xs3)\<rparr>"
proof -
  define t1 where "t1 = run_task xs1 t"
  define t2 where "t2 = run_task xs2 t1"
  have t1: "t1 = t\<lparr>extended_pending := True, frame_bit_index := 0, scancode_byte := 0,
      last_clk := fst (last xs1)\<rparr>"
    unfolding t1_def using run_task_carries [OF idx f1] by (simp add: stop_bit_prefix)
  have "frame_bit_index t1 = 0" "carries (last_clk t1) xs2 0xF0"
    using f2 by (simp_all add: t1)
  then have "t2 = (stop_bit 0xF0 t1)\<lparr>last_clk := fst (last xs2)\<rparr>"
    unfolding t2_def by (rule run_task_carries)
  then have t2: "t2 = t\<lparr>extended_pending := True, break_pending := True,
      frame_bit_index := 0, scancode_byte := 0, last_clk := fst (last xs2)\<rparr>"
    by (simp add: stop_bit_prefix t1)
  have "frame_bit_index t2 = 0" "carries (last_clk t2) xs3 S"
    using f3 by (simp_all add: t2)
  then have "run_task xs3 t2 = (stop_bit S t2)\<lparr>last_clk := fst (last xs3)\<rparr>"
    by (rule run_task_carries)
  also have "\<dots> = (handle_scancode S True True t)\<lparr>frame_bit_index := 0, scancode_byte := 0,
        last_clk := fst (last xs3)\<rparr>"
    using flags by (simp add: stop_bit_terminal [OF S] t2)
  finally show ?thesis
    by (simp add: run_task_append t1_def t2_def)
qed

lemma kbd_state_decoder [simp]:
  "kbd_state (s\<lparr>frame_bit_index := i\<rparr>) = kbd_state s"
  "kbd_state (s\<lparr>scancode_byte := x\<rparr>) = kbd_state s"
  "kbd_state (s\<lparr>last_clk := l\<rparr>) = kbd_state s"
  "kbd_state (s\<lparr>break_pending := p\<rparr>) = kbd_state s"
  "kbd_state (s\<lparr>extended_pending := q\<rparr>) = kbd_state s"
  by (simp_all add: kbd_state_def)

lemma carries_clock_out: "carries prev (clock_out (frame_bits code)) code"
proof -
  have e: "\<And>bs prev. falling_edges prev (clock_out bs) = bs"
  proof -
    fix bs prev show "falling_edges prev (clock_out bs) = bs"
      by (induction bs arbitrary: prev) (simp_all add: clock_out_def)
  qed
  have "horner_sum of_bool 2 (map (bit code) [0..<8]) = take_bit 8 code"
    by (rule horner_sum_bit_eq_take_bit)
  moreover have "take_bit 8 code = code"
    using take_bit_length_eq [of code] by simp
  ultimately have "frame_byte (frame_bits code) = code"
    by (simp add: frame_byte_def frame_bits_def)
  then show ?thesis
    by (simp add: carries_def e) (simp add: frame_bits_def)
qed

subsection \<open>The bit index\<close>

lemma frame_bit_index_step:
  "frame_bit_index (ps2_task clk d s) =
     (if last_clk s \<and> \<not> clk
      then (if frame_bit_index s = 10 then 0 else frame_bit_index s + 1)
      else frame_bit_index s)"
  by (simp add: ps2_task_def Let_def)

lemma frame_bit_index_bound:
  assumes "frame_bit_index s \<le> 10"
  shows "frame_bit_index (ps2_task clk d s) \<le> 10"
proof (cases "frame_bit_index s = 10")
  case True
  then show ?thesis by (simp add: frame_bit_index_step)
next
  case False
  then have "frame_bit_index s < 10"
    using assms index_cases by blast
  then have "frame_bit_index s + 1 \<le> 10" by (rule index_succ)
  then show ?thesis
    using assms by (simp add: frame_bit_index_step)
qed

lemma frame_bit_index_run:
  "frame_bit_index s \<le> 10 \<Longrightarrow> frame_bit_index (run_task xs s) \<le> 10"
  by (induction xs s rule: run_task.induct) (simp_all add: frame_bit_index_bound)

section \<open>The properties\<close>

text \<open>
  \<^bold>\<open>C1\<close> (prefix accumulation and extended-break equivalence). At the stop bit of a
  frame (a falling edge with \<open>frame_bit_index = 10\<close>) the byte 0xF0 sets
  \<open>break_pending\<close> and the byte 0xE0 sets \<open>extended_pending\<close>, and neither
  touches the Keyboard State; any other byte \<open>S\<close> is dispatched as
  \<open>handle_scancode S break_pending extended_pending\<close> and both flags are cleared.
  Hence, from a state between frames with both flags clear, three frames that carry
  0xE0, 0xF0 and a byte \<open>S\<close> that is not a prefix leave the Keyboard State that one
  call \<open>handle_scancode S True True\<close> leaves, and both flags clear again.
\<close>

theorem prefix_accumulation:
  assumes "last_clk s" and "frame_bit_index s = 10"
  shows "(scancode_byte s = 0xF0 \<longrightarrow>
            ps2_task False d s = s\<lparr>break_pending := True, frame_bit_index := 0,
              scancode_byte := 0, last_clk := False\<rparr>)
       \<and> (scancode_byte s = 0xE0 \<longrightarrow>
            ps2_task False d s = s\<lparr>extended_pending := True, frame_bit_index := 0,
              scancode_byte := 0, last_clk := False\<rparr>)
       \<and> (scancode_byte s \<noteq> 0xF0 \<and> scancode_byte s \<noteq> 0xE0 \<longrightarrow>
            ps2_task False d s =
              (handle_scancode (scancode_byte s) (break_pending s) (extended_pending s) s)
                \<lparr>break_pending := False, extended_pending := False, frame_bit_index := 0,
                 scancode_byte := 0, last_clk := False\<rparr>)
       \<and> (frame_bit_index t = 0 \<and> \<not> break_pending t \<and> \<not> extended_pending t
            \<and> S \<noteq> 0xF0 \<and> S \<noteq> 0xE0
            \<and> carries (last_clk t) xs1 0xE0
            \<and> carries (fst (last xs1)) xs2 0xF0
            \<and> carries (fst (last xs2)) xs3 S \<longrightarrow>
            kbd_state (run_task (xs1 @ xs2 @ xs3) t) = kbd_state (handle_scancode S True True t)
            \<and> \<not> break_pending (run_task (xs1 @ xs2 @ xs3) t)
            \<and> \<not> extended_pending (run_task (xs1 @ xs2 @ xs3) t))"
proof (intro conjI impI)
  assume "scancode_byte s = 0xF0"
  then show "ps2_task False d s = s\<lparr>break_pending := True, frame_bit_index := 0,
      scancode_byte := 0, last_clk := False\<rparr>"
    using assms by (simp add: ps2_task_stop stop_bit_prefix)
next
  assume "scancode_byte s = 0xE0"
  then show "ps2_task False d s = s\<lparr>extended_pending := True, frame_bit_index := 0,
      scancode_byte := 0, last_clk := False\<rparr>"
    using assms by (simp add: ps2_task_stop stop_bit_prefix)
next
  assume "scancode_byte s \<noteq> 0xF0 \<and> scancode_byte s \<noteq> 0xE0"
  then show "ps2_task False d s =
      (handle_scancode (scancode_byte s) (break_pending s) (extended_pending s) s)
        \<lparr>break_pending := False, extended_pending := False, frame_bit_index := 0,
         scancode_byte := 0, last_clk := False\<rparr>"
    using assms by (simp add: ps2_task_stop stop_bit_terminal)
next
  assume a: "frame_bit_index t = 0 \<and> \<not> break_pending t \<and> \<not> extended_pending t
      \<and> S \<noteq> 0xF0 \<and> S \<noteq> 0xE0
      \<and> carries (last_clk t) xs1 0xE0
      \<and> carries (fst (last xs1)) xs2 0xF0
      \<and> carries (fst (last xs2)) xs3 S"
  then have run: "run_task (xs1 @ xs2 @ xs3) t =
     (handle_scancode S True True t)\<lparr>frame_bit_index := 0, scancode_byte := 0,
        last_clk := fst (last xs3)\<rparr>"
    by (intro extended_break_frames) simp_all
  show "kbd_state (run_task (xs1 @ xs2 @ xs3) t) = kbd_state (handle_scancode S True True t)"
    by (simp add: run)
  show "\<not> break_pending (run_task (xs1 @ xs2 @ xs3) t)"
    using a by (simp add: run)
  show "\<not> extended_pending (run_task (xs1 @ xs2 @ xs3) t)"
    using a by (simp add: run)
qed

text \<open>The theorem at a concrete input.\<close>

theorem prefix_accumulation_witness:
  "last_clk (run_task (butlast (clock_out (frame_bits 0xF0))) (ps2_init True))
   \<and> frame_bit_index (run_task (butlast (clock_out (frame_bits 0xF0))) (ps2_init True)) = 10
   \<and> scancode_byte (run_task (butlast (clock_out (frame_bits 0xF0))) (ps2_init True)) = 0xF0
   \<and> ps2_task False True (run_task (butlast (clock_out (frame_bits 0xF0))) (ps2_init True))
       = (ps2_init False)\<lparr>break_pending := True\<rparr>
   \<and> ps2_task False True (run_task (butlast (clock_out (frame_bits 0xE0))) (ps2_init True))
       = (ps2_init False)\<lparr>extended_pending := True\<rparr>
   \<and> ps2_task False True (run_task (butlast (clock_out (frame_bits 0x1C))) (ps2_init True))
       = (ps2_init False)\<lparr>g_keys := [HID_KEY_A, 0, 0, 0, 0, 0], g_state_changed := True\<rparr>
   \<and> g_keys (handle_scancode 0x75 False True (ps2_init True)) = [HID_KEY_ARROW_UP, 0, 0, 0, 0, 0]
   \<and> carries (last_clk (handle_scancode 0x75 False True (ps2_init True)))
         (clock_out (frame_bits 0xE0)) 0xE0
   \<and> carries (fst (last (clock_out (frame_bits 0xE0)))) (clock_out (frame_bits 0xF0)) 0xF0
   \<and> carries (fst (last (clock_out (frame_bits 0xF0)))) (clock_out (frame_bits 0x75)) 0x75
   \<and> kbd_state (run_task
         (clock_out (frame_bits 0xE0) @ clock_out (frame_bits 0xF0) @ clock_out (frame_bits 0x75))
         (handle_scancode 0x75 False True (ps2_init True)))
       = kbd_state (handle_scancode 0x75 True True (handle_scancode 0x75 False True (ps2_init True)))
   \<and> kbd_state (handle_scancode 0x75 True True (handle_scancode 0x75 False True (ps2_init True)))
       = (0, [0, 0, 0, 0, 0, 0], True)"
proof -
  let ?sF0 = "run_task (butlast (clock_out (frame_bits 0xF0))) (ps2_init True)"
  let ?sE0 = "run_task (butlast (clock_out (frame_bits 0xE0))) (ps2_init True)"
  let ?s1C = "run_task (butlast (clock_out (frame_bits 0x1C))) (ps2_init True)"
  let ?t = "handle_scancode 0x75 False True (ps2_init True)"
  have f0: "last_clk ?sF0" "frame_bit_index ?sF0 = 10" "scancode_byte ?sF0 = 0xF0"
    by code_simp+
  have e0: "last_clk ?sE0" "frame_bit_index ?sE0 = 10" "scancode_byte ?sE0 = 0xE0"
    by code_simp+
  have c1: "last_clk ?s1C" "frame_bit_index ?s1C = 10"
    "scancode_byte ?s1C \<noteq> 0xF0 \<and> scancode_byte ?s1C \<noteq> 0xE0"
    by code_simp+
  have t: "frame_bit_index ?t = 0" "\<not> break_pending ?t" "\<not> extended_pending ?t"
    "(0x75 :: u8) \<noteq> 0xF0" "(0x75 :: u8) \<noteq> 0xE0"
    by code_simp+
  have fr: "carries (last_clk ?t) (clock_out (frame_bits 0xE0)) 0xE0"
    "carries (fst (last (clock_out (frame_bits 0xE0)))) (clock_out (frame_bits 0xF0)) 0xF0"
    "carries (fst (last (clock_out (frame_bits 0xF0)))) (clock_out (frame_bits 0x75)) 0x75"
    by code_simp+
  have v: "s\<lparr>break_pending := True, frame_bit_index := 0, scancode_byte := 0, last_clk := False\<rparr>
        = (ps2_init False)\<lparr>break_pending := True\<rparr>"
    if "s = ?sF0" for s
    unfolding that by code_simp
  have v': "s\<lparr>extended_pending := True, frame_bit_index := 0, scancode_byte := 0, last_clk := False\<rparr>
        = (ps2_init False)\<lparr>extended_pending := True\<rparr>"
    if "s = ?sE0" for s
    unfolding that by code_simp
  have v'': "(handle_scancode (scancode_byte s) (break_pending s) (extended_pending s) s)
        \<lparr>break_pending := False, extended_pending := False, frame_bit_index := 0,
         scancode_byte := 0, last_clk := False\<rparr>
        = (ps2_init False)\<lparr>g_keys := [HID_KEY_A, 0, 0, 0, 0, 0], g_state_changed := True\<rparr>"
    if "s = ?s1C" for s
    unfolding that by code_simp
  have k: "g_keys ?t = [HID_KEY_ARROW_UP, 0, 0, 0, 0, 0]"
    "kbd_state (handle_scancode 0x75 True True ?t) = (0, [0, 0, 0, 0, 0, 0], True)"
    by code_simp+
  note A = prefix_accumulation [OF f0(1,2), where d = True and t = ?t and S = "0x75"
      and ?xs1.0 = "clock_out (frame_bits 0xE0)" and ?xs2.0 = "clock_out (frame_bits 0xF0)"
      and ?xs3.0 = "clock_out (frame_bits 0x75)"]
  note B = prefix_accumulation [OF e0(1,2), where d = True and t = ?t and S = "0x75"
      and ?xs1.0 = "clock_out (frame_bits 0xE0)" and ?xs2.0 = "clock_out (frame_bits 0xF0)"
      and ?xs3.0 = "clock_out (frame_bits 0x75)"]
  note C = prefix_accumulation [OF c1(1,2), where d = True and t = ?t and S = "0x75"
      and ?xs1.0 = "clock_out (frame_bits 0xE0)" and ?xs2.0 = "clock_out (frame_bits 0xF0)"
      and ?xs3.0 = "clock_out (frame_bits 0x75)"]
  from A f0(3) have "ps2_task False True ?sF0 = ?sF0\<lparr>break_pending := True,
      frame_bit_index := 0, scancode_byte := 0, last_clk := False\<rparr>"
    by blast
  then have 1: "ps2_task False True ?sF0 = (ps2_init False)\<lparr>break_pending := True\<rparr>"
    by (simp only: v [OF refl])
  from B e0(3) have "ps2_task False True ?sE0 = ?sE0\<lparr>extended_pending := True,
      frame_bit_index := 0, scancode_byte := 0, last_clk := False\<rparr>"
    by blast
  then have 2: "ps2_task False True ?sE0 = (ps2_init False)\<lparr>extended_pending := True\<rparr>"
    by (simp only: v' [OF refl])
  from C c1(3) have "ps2_task False True ?s1C =
      (handle_scancode (scancode_byte ?s1C) (break_pending ?s1C) (extended_pending ?s1C) ?s1C)
        \<lparr>break_pending := False, extended_pending := False, frame_bit_index := 0,
         scancode_byte := 0, last_clk := False\<rparr>"
    by blast
  then have 3: "ps2_task False True ?s1C
      = (ps2_init False)\<lparr>g_keys := [HID_KEY_A, 0, 0, 0, 0, 0], g_state_changed := True\<rparr>"
    by (simp only: v'' [OF refl])
  have 4: "kbd_state (run_task
         (clock_out (frame_bits 0xE0) @ clock_out (frame_bits 0xF0) @ clock_out (frame_bits 0x75)) ?t)
       = kbd_state (handle_scancode 0x75 True True ?t)"
    using A t fr by blast
  show ?thesis
    using f0 1 2 3 4 k fr by blast
qed

text \<open>
  \<^bold>\<open>C2\<close> (round trip of a press and a release). For a mapped scancode whose key
  identity is not tracked in the starting state (its modifier bit is clear, or its slot
  code is not in \<open>g_keys\<close>), a press followed by a release with the same
  \<open>is_extended\<close> returns \<open>g_keys\<close> and \<open>g_modifiers\<close> to their values before the
  press. The restriction to untracked identities is needed: \<^verbatim>\<open>press_key\<close> does
  nothing for a key that is already held, and the release then removes it (lemma
  \<open>release_press_tracked\<close>).
\<close>

theorem press_release_round_trip:
  assumes "wf_state s"
    and "key_identity code is_extended \<noteq> 0"
    and "\<not> tracked (key_identity code is_extended) s"
  shows "g_keys (handle_scancode code True is_extended
                  (handle_scancode code False is_extended s)) = g_keys s
       \<and> g_modifiers (handle_scancode code True is_extended
                  (handle_scancode code False is_extended s)) = g_modifiers s"
  using assms
  by (simp add: handle_scancode_press handle_scancode_release release_press_untracked)

text \<open>The theorem at a concrete input.\<close>

theorem press_release_round_trip_witness:
  "wf_state (ps2_init True)
   \<and> key_identity 0x12 False \<noteq> 0
   \<and> \<not> tracked (key_identity 0x12 False) (ps2_init True)
   \<and> g_modifiers (handle_scancode 0x12 False False (ps2_init True)) = HID_MOD_LEFT_SHIFT
   \<and> g_keys (handle_scancode 0x12 True False
                (handle_scancode 0x12 False False (ps2_init True))) = g_keys (ps2_init True)
   \<and> g_modifiers (handle_scancode 0x12 True False
                (handle_scancode 0x12 False False (ps2_init True))) = g_modifiers (ps2_init True)"
proof -
  have wf: "wf_state (ps2_init True)" by code_simp
  have nz: "key_identity 0x12 False \<noteq> 0" by code_simp
  have un: "\<not> tracked (key_identity 0x12 False) (ps2_init True)" by code_simp
  have m: "g_modifiers (handle_scancode 0x12 False False (ps2_init True)) = HID_MOD_LEFT_SHIFT"
    by code_simp
  show ?thesis
    using wf nz un m press_release_round_trip [OF wf nz un] by simp
qed

text \<open>
  With Left Shift held, a repeated make code 0x12 followed by the break code leaves the
  modifiers byte 0x00, not the 0x02 it was before that press.
\<close>

theorem press_release_round_trip_counterexample:
  "wf_state (handle_scancode 0x12 False False (ps2_init True))
   \<and> key_identity 0x12 False \<noteq> 0
   \<and> g_modifiers (handle_scancode 0x12 False False (ps2_init True)) = HID_MOD_LEFT_SHIFT
   \<and> g_modifiers (handle_scancode 0x12 True False
        (handle_scancode 0x12 False False
          (handle_scancode 0x12 False False (ps2_init True)))) = 0
   \<and> g_modifiers (handle_scancode 0x12 True False
        (handle_scancode 0x12 False False
          (handle_scancode 0x12 False False (ps2_init True))))
       \<noteq> g_modifiers (handle_scancode 0x12 False False (ps2_init True))"
  by code_simp

text \<open>
  \<^bold>\<open>C3\<close> (rollover ceiling). From an empty keys array, the make codes of seven
  scancodes with distinct ordinary key identities leave exactly six occupied slots, and
  six are occupied already before the seventh; the seventh dispatch returns the state it
  was given: keys, modifiers and the changed flag are those of the state after six.
\<close>

theorem rollover_ceiling:
  assumes "g_keys s = replicate 6 0"
    and "length ps = 7"
    and "distinct (map (\<lambda>(code, is_extended). key_identity code is_extended) ps)"
    and "\<forall>(code, is_extended)\<in>set ps. ordinary (key_identity code is_extended)"
  shows "occupied (presses ps s) = 6
       \<and> occupied (presses (take 6 ps) s) = 6
       \<and> handle_scancode (fst (ps ! 6)) False (snd (ps ! 6)) (presses (take 6 ps) s)
           = presses (take 6 ps) s"
proof -
  define qs where "qs = take 6 ps"
  define s6 where "s6 = presses qs s"
  have ps: "ps = qs @ [ps ! 6]"
    using assms(2) by (simp add: qs_def take_Suc_conv_app_nth [of 6 ps, symmetric])
  have d: "distinct (map identity_of qs)" and f: "identity_of (ps ! 6) \<notin> set (map identity_of qs)"
    using assms(3) by (subst (asm) ps, simp)+
  have o: "\<forall>p\<in>set qs. ordinary (identity_of p)" and o7: "ordinary (identity_of (ps ! 6))"
    using assms(4) by (subst (asm) ps, auto)+
  have lq: "length qs = 6" using assms(2) by (simp add: qs_def)
  have k6: "g_keys s6 = map identity_of qs"
    using keys_after_presses [OF assms(1) _ d o] lq by (simp add: s6_def)
  have nz: "0 \<notin> set (g_keys s6)"
    using o by (auto simp: k6 ordinary_def)
  have "filter (\<lambda>k. k \<noteq> 0) (g_keys s6) = g_keys s6"
    using nz by (intro filter_True) auto
  then have occ: "occupied s6 = 6"
    using lq by (simp add: occupied_def k6)
  have "press_key (identity_of (ps ! 6)) s6 = s6"
    using nz o7 f lq by (intro press_key_full) (simp_all add: k6)
  then have drop: "handle_scancode (fst (ps ! 6)) False (snd (ps ! 6)) s6 = s6"
    by (simp add: handle_scancode_press case_prod_beta)
  have "presses ps s = handle_scancode (fst (ps ! 6)) False (snd (ps ! 6)) s6"
    by (subst ps) (simp add: presses_append presses_single s6_def)
  then show ?thesis
    using occ drop by (simp add: s6_def qs_def)
qed

text \<open>The theorem at a concrete input.\<close>

theorem rollover_ceiling_witness:
  "g_keys (ps2_init True) = replicate 6 0
   \<and> length [(0x1C, False), (0x32, False), (0x21, False), (0x23, False), (0x24, False),
          (0x2B, False), (0x75 :: u8, True)] = 7
   \<and> map (\<lambda>(code, is_extended). key_identity code is_extended)
         [(0x1C, False), (0x32, False), (0x21, False), (0x23, False), (0x24, False),
          (0x2B, False), (0x75, True)]
       = [HID_KEY_A, HID_KEY_B, HID_KEY_C, HID_KEY_D, HID_KEY_E, HID_KEY_F, HID_KEY_ARROW_UP]
   \<and> g_keys (presses [(0x1C, False), (0x32, False), (0x21, False), (0x23, False),
          (0x24, False), (0x2B, False), (0x75, True)] (ps2_init True))
       = [HID_KEY_A, HID_KEY_B, HID_KEY_C, HID_KEY_D, HID_KEY_E, HID_KEY_F]
   \<and> occupied (presses [(0x1C, False), (0x32, False), (0x21, False), (0x23, False),
          (0x24, False), (0x2B, False), (0x75, True)] (ps2_init True)) = 6
   \<and> handle_scancode 0x75 False True
         (presses [(0x1C, False), (0x32, False), (0x21, False), (0x23, False),
            (0x24, False), (0x2B, False)] (ps2_init True))
       = presses [(0x1C, False), (0x32, False), (0x21, False), (0x23, False),
            (0x24, False), (0x2B, False)] (ps2_init True)"
proof -
  let ?ps = "[(0x1C, False), (0x32, False), (0x21, False), (0x23, False), (0x24, False),
          (0x2B, False), (0x75 :: u8, True)]"
  have e: "g_keys (ps2_init True) = replicate 6 0" by (simp add: ps2_init_def)
  have l: "length ?ps = 7" by simp
  have m: "map (\<lambda>(code, is_extended). key_identity code is_extended) ?ps
       = [HID_KEY_A, HID_KEY_B, HID_KEY_C, HID_KEY_D, HID_KEY_E, HID_KEY_F, HID_KEY_ARROW_UP]"
    by code_simp
  have d: "distinct (map (\<lambda>(code, is_extended). key_identity code is_extended) ?ps)"
    by (simp only: m) simp
  have o: "\<forall>(code, is_extended)\<in>set ?ps. ordinary (key_identity code is_extended)"
    by code_simp
  have k: "g_keys (presses ?ps (ps2_init True))
       = [HID_KEY_A, HID_KEY_B, HID_KEY_C, HID_KEY_D, HID_KEY_E, HID_KEY_F]"
    by code_simp
  show ?thesis
    using e l m k rollover_ceiling [OF e l d o] by simp
qed

text \<open>
  \<^bold>\<open>C4\<close> (idempotent press and release). Dispatching the make code of a scancode a
  second time leaves the whole state, the changed flag included, as the first dispatch
  left it; and dispatching the break code of a key identity that is not tracked leaves
  the whole state unchanged, so the changed flag is not set by it.
\<close>

theorem idempotent_press_release:
  assumes "wf_state s"
  shows "handle_scancode code False is_extended (handle_scancode code False is_extended s)
           = handle_scancode code False is_extended s
       \<and> (\<not> tracked (key_identity code is_extended) s
            \<longrightarrow> handle_scancode code True is_extended s = s)"
  using assms
  by (simp add: handle_scancode_press handle_scancode_release press_key_idem
      release_key_untracked)

text \<open>The theorem at a concrete input.\<close>

theorem idempotent_press_release_witness:
  "wf_state (ps2_init True)
   \<and> handle_scancode 0x1C False False (handle_scancode 0x1C False False (ps2_init True))
       = handle_scancode 0x1C False False (ps2_init True)
   \<and> g_keys (handle_scancode 0x1C False False (ps2_init True)) = [HID_KEY_A, 0, 0, 0, 0, 0]
   \<and> \<not> tracked (key_identity 0x1C False) (ps2_init True)
   \<and> handle_scancode 0x1C True False (ps2_init True) = ps2_init True"
proof -
  have wf: "wf_state (ps2_init True)" by code_simp
  have un: "\<not> tracked (key_identity 0x1C False) (ps2_init True)" by code_simp
  have k: "g_keys (handle_scancode 0x1C False False (ps2_init True)) = [HID_KEY_A, 0, 0, 0, 0, 0]"
    by code_simp
  show ?thesis
    using wf un k idempotent_press_release [OF wf, of "0x1C" False] by simp
qed

text \<open>
  \<^bold>\<open>C5\<close> (least significant bit first, parity ignored). Let the samples \<open>xs\<close>,
  taken from a state between frames, have eleven falling edges with the data levels
  \<open>bs\<close>. Then running \<^verbatim>\<open>ps2_task\<close> over \<open>xs\<close> ends in the state the stop-bit
  branch produces for the byte \<open>frame_byte bs\<close>, whose bit \<open>i - 1\<close> is \<open>bs ! i\<close>
  for every \<open>i\<close> from 1 to 8; and a second frame \<open>bs'\<close> that agrees with \<open>bs\<close> on
  the bits 1 to 8 has the same byte and ends in the same state (but for the clock level
  last seen), whatever its start, parity and stop bits.
\<close>

theorem lsb_first_reconstruction:
  assumes "frame_bit_index s = 0"
    and "falling_edges (last_clk s) xs = bs"
    and "length bs = 11"
  shows "run_task xs s = (stop_bit (frame_byte bs) s)\<lparr>last_clk := fst (last xs)\<rparr>
       \<and> (\<forall>i\<in>{1..8}. bit (frame_byte bs) (i - 1) = bs ! i)
       \<and> (falling_edges (last_clk s) xs' = bs' \<and> length bs' = 11
            \<and> (\<forall>i\<in>{1..8}. bs' ! i = bs ! i) \<longrightarrow>
            frame_byte bs' = frame_byte bs
            \<and> run_task xs' s = (run_task xs s)\<lparr>last_clk := fst (last xs')\<rparr>)"
proof (intro conjI impI ballI)
  show run: "run_task xs s = (stop_bit (frame_byte bs) s)\<lparr>last_clk := fst (last xs)\<rparr>"
    using assms run_task_frame [of s xs] by simp
  {
    fix i :: nat
    assume "i \<in> {1..8}"
    then show "bit (frame_byte bs) (i - 1) = bs ! i"
      using assms(3) by (auto simp: frame_byte_bit)
  }
  assume b: "falling_edges (last_clk s) xs' = bs' \<and> length bs' = 11
      \<and> (\<forall>i\<in>{1..8}. bs' ! i = bs ! i)"
  show same: "frame_byte bs' = frame_byte bs"
  proof (rule bit_eqI)
    fix n :: nat
    have "n < 8 \<Longrightarrow> bs' ! Suc n = bs ! Suc n"
      using b by simp
    then show "bit (frame_byte bs') n = bit (frame_byte bs) n"
      using b assms(3) by (auto simp: frame_byte_bit)
  qed
  have "run_task xs' s = (stop_bit (frame_byte bs') s)\<lparr>last_clk := fst (last xs')\<rparr>"
    using assms(1) b run_task_frame [of s xs'] by simp
  then show "run_task xs' s = (run_task xs s)\<lparr>last_clk := fst (last xs')\<rparr>"
    by (simp add: run same)
qed

text \<open>The theorem at a concrete input.\<close>

theorem lsb_first_reconstruction_witness:
  "frame_bit_index (ps2_init True) = 0
   \<and> falling_edges (last_clk (ps2_init True))
        (clock_out [True, False, False, True, True, True, False, False, False, True, False])
       = [True, False, False, True, True, True, False, False, False, True, False]
   \<and> falling_edges (last_clk (ps2_init True)) (clock_out (frame_bits 0x1C))
       = [False, False, False, True, True, True, False, False, False, False, True]
   \<and> frame_byte [True, False, False, True, True, True, False, False, False, True, False] = 0x1C
   \<and> run_task (clock_out [True, False, False, True, True, True, False, False, False, True, False])
        (ps2_init True)
       = (stop_bit 0x1C (ps2_init True))\<lparr>last_clk := False\<rparr>
   \<and> g_keys (run_task
        (clock_out [True, False, False, True, True, True, False, False, False, True, False])
        (ps2_init True)) = [HID_KEY_A, 0, 0, 0, 0, 0]
   \<and> run_task (clock_out (frame_bits 0x1C)) (ps2_init True)
       = run_task (clock_out [True, False, False, True, True, True, False, False, False, True, False])
           (ps2_init True)"
proof -
  let ?bad = "[True, False, False, True, True, True, False, False, False, True, False]"
  let ?good = "[False, False, False, True, True, True, False, False, False, False, True]"
  have i: "frame_bit_index (ps2_init True) = 0"
    by (simp add: ps2_init_def)
  have e: "falling_edges (last_clk (ps2_init True)) (clock_out ?bad) = ?bad"
    by code_simp
  have e': "falling_edges (last_clk (ps2_init True)) (clock_out (frame_bits 0x1C)) = ?good"
    by code_simp
  have l: "length ?bad = 11" "length ?good = 11"
    by simp_all
  have same: "\<forall>i\<in>{1..8}. ?good ! i = ?bad ! i"
    by code_simp
  have byte: "frame_byte ?bad = 0x1C"
    by code_simp
  have c: "fst (last (clock_out ?bad)) = False" "fst (last (clock_out (frame_bits 0x1C))) = False"
    by code_simp+
  have k: "g_keys ((stop_bit 0x1C (ps2_init True))\<lparr>last_clk := False\<rparr>) = [HID_KEY_A, 0, 0, 0, 0, 0]"
    by code_simp
  note t = lsb_first_reconstruction [OF i e l(1),
      where xs' = "clock_out (frame_bits 0x1C)" and bs' = ?good]
  from t have r1: "run_task (clock_out ?bad) (ps2_init True)
      = (stop_bit 0x1C (ps2_init True))\<lparr>last_clk := False\<rparr>"
    by (simp only: byte c)
  from t e' l(2) same have "run_task (clock_out (frame_bits 0x1C)) (ps2_init True)
      = (run_task (clock_out ?bad) (ps2_init True))
          \<lparr>last_clk := fst (last (clock_out (frame_bits 0x1C)))\<rparr>"
    by blast
  then have "run_task (clock_out (frame_bits 0x1C)) (ps2_init True)
      = (run_task (clock_out ?bad) (ps2_init True))\<lparr>last_clk := False\<rparr>"
    by (simp only: c)
  then have r2: "run_task (clock_out (frame_bits 0x1C)) (ps2_init True)
      = run_task (clock_out ?bad) (ps2_init True)"
    by (simp add: r1)
  have k': "g_keys (run_task (clock_out ?bad) (ps2_init True)) = [HID_KEY_A, 0, 0, 0, 0, 0]"
    by (simp only: r1 k)
  show ?thesis
    using i e e' byte r1 r2 k' by blast
qed

text \<open>
  \<^bold>\<open>C6\<close> (frame-accumulator invariant). In every state reached from \<^verbatim>\<open>ps2_init\<close>
  by calls of \<^verbatim>\<open>ps2_task\<close>, \<open>frame_bit_index\<close> is at most 10. A further call
  leaves it unchanged when it sees no falling edge; on a falling edge it sets it to 0
  when it is 10 and adds 1 otherwise, whatever the data level, so that on a falling edge
  the new index is 0 exactly when the old one is 10.
\<close>

theorem frame_accumulator_invariant:
  assumes "s = run_task xs (ps2_init c)"
  shows "frame_bit_index s \<le> 10
       \<and> frame_bit_index (ps2_task clk d s) =
           (if last_clk s \<and> \<not> clk
            then (if frame_bit_index s = 10 then 0 else frame_bit_index s + 1)
            else frame_bit_index s)
       \<and> (last_clk s \<and> \<not> clk \<longrightarrow>
            (frame_bit_index (ps2_task clk d s) = 0 \<longleftrightarrow> frame_bit_index s = 10))"
proof -
  have le: "frame_bit_index s \<le> 10"
    unfolding assms by (rule frame_bit_index_run) (simp add: ps2_init_def)
  have "frame_bit_index s + 1 \<noteq> 0" if "frame_bit_index s \<noteq> 10"
  proof -
    have "frame_bit_index s < 10"
      using le that index_cases by blast
    then have "unat (frame_bit_index s + 1) = Suc (unat (frame_bit_index s))"
      by (rule index_succ)
    then show ?thesis by auto
  qed
  then show ?thesis
    using le by (auto simp: frame_bit_index_step)
qed

text \<open>The theorem at a concrete input.\<close>

theorem frame_accumulator_invariant_witness:
  "frame_bit_index (run_task (butlast (clock_out (frame_bits 0x1C))) (ps2_init True)) = 10
   \<and> last_clk (run_task (butlast (clock_out (frame_bits 0x1C))) (ps2_init True))
   \<and> frame_bit_index (run_task (butlast (clock_out (frame_bits 0x1C))) (ps2_init True)) \<le> 10
   \<and> frame_bit_index
        (ps2_task False True (run_task (butlast (clock_out (frame_bits 0x1C))) (ps2_init True)))
       = 0
   \<and> frame_bit_index (ps2_task False False (ps2_init True)) = 1"
proof -
  have a: "frame_bit_index (run_task (butlast (clock_out (frame_bits 0x1C))) (ps2_init True)) = 10"
    by code_simp
  have b: "last_clk (run_task (butlast (clock_out (frame_bits 0x1C))) (ps2_init True))"
    by code_simp
  have c: "last_clk (ps2_init True)" "frame_bit_index (ps2_init True) = 0"
    by (simp_all add: ps2_init_def)
  have d: "ps2_init True = run_task [] (ps2_init True)"
    by simp
  show ?thesis
    using a b c
      frame_accumulator_invariant [OF refl, where clk = False and d = True
        and xs = "butlast (clock_out (frame_bits 0x1C))" and c = True]
      frame_accumulator_invariant [OF d, where clk = False and d = False]
    by simp
qed

text \<open>
  \<^bold>\<open>C7\<close> (modifier independence). A dispatch (press or release) of a scancode whose
  identity is a modifier sentinel leaves \<open>g_keys\<close> unchanged, and a dispatch of a
  scancode whose identity is not a modifier sentinel leaves \<open>g_modifiers\<close> unchanged.
  In a state whose keys array has an empty slot or already holds A (the state after
  \<^verbatim>\<open>ps2_init\<close> is one), the make code 0x12, the make code 0x1C and the break code
  0x12 end with the Left Shift bit clear and A in the keys array.
\<close>

theorem modifier_independence:
  "(get_modifier_mask (key_identity code is_extended) \<noteq> 0 \<longrightarrow>
      g_keys (handle_scancode code is_break is_extended s) = g_keys s)
   \<and> (get_modifier_mask (key_identity code is_extended) = 0 \<longrightarrow>
      g_modifiers (handle_scancode code is_break is_extended s) = g_modifiers s)
   \<and> (wf_state s \<and> (0 \<in> set (g_keys s) \<or> HID_KEY_A \<in> set (g_keys s)) \<longrightarrow>
      g_modifiers (handle_scancode 0x12 True False (handle_scancode 0x1C False False
         (handle_scancode 0x12 False False s))) AND HID_MOD_LEFT_SHIFT = 0
      \<and> HID_KEY_A \<in> set (g_keys (handle_scancode 0x12 True False
         (handle_scancode 0x1C False False (handle_scancode 0x12 False False s)))))"
proof (intro conjI impI)
  assume "get_modifier_mask (key_identity code is_extended) \<noteq> 0"
  then show "g_keys (handle_scancode code is_break is_extended s) = g_keys s"
    by (rule handle_scancode_modifier_keys)
next
  assume "get_modifier_mask (key_identity code is_extended) = 0"
  then show "g_modifiers (handle_scancode code is_break is_extended s) = g_modifiers s"
    by (rule handle_scancode_other_modifiers)
next
  assume a: "wf_state s \<and> (0 \<in> set (g_keys s) \<or> HID_KEY_A \<in> set (g_keys s))"
  define s1 where "s1 = press_key 0xFE s"
  define s2 where "s2 = press_key HID_KEY_A s1"
  have m: "get_modifier_mask 0xFE = HID_MOD_LEFT_SHIFT" "get_modifier_mask HID_KEY_A = 0"
    by (simp_all add: get_modifier_mask_def)
  have run: "handle_scancode 0x12 True False (handle_scancode 0x1C False False
         (handle_scancode 0x12 False False s)) = release_key 0xFE s2"
    by (simp add: handle_scancode_press handle_scancode_release id_left_shift id_a s1_def s2_def)
  have k1: "g_keys s1 = g_keys s"
    by (simp add: s1_def press_key_modifier_keys m)
  have "slot_code HID_KEY_A \<in> set (g_keys s2)"
    unfolding s2_def using a
    by (intro press_key_present) (simp_all add: k1 m wf_state_def slot_code_def)
  then have "HID_KEY_A \<in> set (g_keys (release_key 0xFE s2))"
    by (simp add: release_key_modifier_keys m slot_code_def)
  moreover have "g_modifiers (release_key 0xFE s2) AND HID_MOD_LEFT_SHIFT = 0"
    using release_key_clears [of "0xFE" s2] by (simp add: m)
  ultimately show "g_modifiers (handle_scancode 0x12 True False (handle_scancode 0x1C False False
         (handle_scancode 0x12 False False s))) AND HID_MOD_LEFT_SHIFT = 0"
    and "HID_KEY_A \<in> set (g_keys (handle_scancode 0x12 True False
         (handle_scancode 0x1C False False (handle_scancode 0x12 False False s))))"
    by (simp_all add: run)
qed

text \<open>The theorem at a concrete input.\<close>

theorem modifier_independence_witness:
  "get_modifier_mask (key_identity 0x12 False) \<noteq> 0
   \<and> g_modifiers (handle_scancode 0x12 False False (ps2_init True)) = HID_MOD_LEFT_SHIFT
   \<and> g_keys (handle_scancode 0x12 False False (ps2_init True)) = g_keys (ps2_init True)
   \<and> get_modifier_mask (key_identity 0x1C False) = 0
   \<and> g_keys (handle_scancode 0x1C False False (ps2_init True)) = [HID_KEY_A, 0, 0, 0, 0, 0]
   \<and> g_modifiers (handle_scancode 0x1C False False (ps2_init True)) = g_modifiers (ps2_init True)
   \<and> wf_state (ps2_init True) \<and> 0 \<in> set (g_keys (ps2_init True))
   \<and> g_modifiers (handle_scancode 0x12 True False (handle_scancode 0x1C False False
         (handle_scancode 0x12 False False (ps2_init True)))) AND HID_MOD_LEFT_SHIFT = 0
   \<and> HID_KEY_A \<in> set (g_keys (handle_scancode 0x12 True False
         (handle_scancode 0x1C False False (handle_scancode 0x12 False False (ps2_init True)))))"
proof -
  have a: "get_modifier_mask (key_identity 0x12 False) \<noteq> 0" by code_simp
  have b: "get_modifier_mask (key_identity 0x1C False) = 0" by code_simp
  have c: "wf_state (ps2_init True)" "0 \<in> set (g_keys (ps2_init True))" by code_simp+
  have d: "g_modifiers (handle_scancode 0x12 False False (ps2_init True)) = HID_MOD_LEFT_SHIFT"
    "g_keys (handle_scancode 0x1C False False (ps2_init True)) = [HID_KEY_A, 0, 0, 0, 0, 0]"
    by code_simp+
  show ?thesis
    using a b c d modifier_independence [of "0x12" False False "ps2_init True"]
      modifier_independence [of "0x1C" False False "ps2_init True"]
    by simp
qed

text \<open>
  \<^bold>\<open>C8\<close> (changed-flag protocol). Of the operations on a running decoder (a call of
  \<^verbatim>\<open>ps2_task\<close>, a dispatch by \<^verbatim>\<open>handle_scancode\<close>, the three getters and
  \<^verbatim>\<open>ps2_clear_changed\<close>), every one that changes \<open>g_modifiers\<close> or \<open>g_keys\<close>
  leaves \<open>g_state_changed\<close> true; one that finds the flag true and leaves it false is
  \<^verbatim>\<open>ps2_clear_changed\<close>; and \<^verbatim>\<open>ps2_clear_changed\<close> leaves it false.
  \<^verbatim>\<open>ps2_init\<close> assigns every variable, the flag included, and starts a run; it is
  not one of the operations on a running decoder.
\<close>

theorem changed_flag_protocol:
  "(g_modifiers (exec_op op s) \<noteq> g_modifiers s \<or> g_keys (exec_op op s) \<noteq> g_keys s
      \<longrightarrow> g_state_changed (exec_op op s))
   \<and> (g_state_changed s \<and> \<not> g_state_changed (exec_op op s) \<longrightarrow> op = ClearChanged)
   \<and> \<not> g_state_changed (exec_op ClearChanged s)"
proof (cases op)
  case (Task clk d)
  then show ?thesis
    using ps2_task_flag [of clk d s] by (simp add: ps2_clear_changed_def)
next
  case (Dispatch c b e)
  then show ?thesis
    using handle_scancode_flag [of c b e s] by (simp add: ps2_clear_changed_def)
qed (simp_all add: ps2_get_modifiers_def ps2_get_keys_def ps2_state_changed_def
       ps2_clear_changed_def)

text \<open>The theorem at a concrete input.\<close>

theorem changed_flag_protocol_witness:
  "g_keys (exec_op (Dispatch 0x1C False False) (ps2_init True)) \<noteq> g_keys (ps2_init True)
   \<and> g_state_changed (exec_op (Dispatch 0x1C False False) (ps2_init True))
   \<and> g_state_changed (exec_op (Dispatch 0x1C False False) (ps2_init True))
   \<and> \<not> g_state_changed
         (exec_op ClearChanged (exec_op (Dispatch 0x1C False False) (ps2_init True)))
   \<and> ClearChanged = ClearChanged"
proof -
  have m: "g_keys (exec_op (Dispatch 0x1C False False) (ps2_init True)) \<noteq> g_keys (ps2_init True)"
    by code_simp
  show ?thesis
    using m changed_flag_protocol [of "Dispatch 0x1C False False" "ps2_init True"]
      changed_flag_protocol [of ClearChanged "exec_op (Dispatch 0x1C False False) (ps2_init True)"]
    by blast
qed

text \<open>
  \<^bold>\<open>C9\<close> (an unknown scancode is a no-op). When the table entry of a scancode (the
  extended table if \<open>is_extended\<close>, else the plain table) is 0, the dispatch returns
  the state it was given, for a press and for a release; \<^verbatim>\<open>handle_scancode\<close> has no
  error result.
\<close>

theorem unknown_scancode_no_op:
  assumes "key_identity code is_extended = 0"
  shows "handle_scancode code is_break is_extended s = s"
  using assms by (simp add: handle_scancode_def key_identity_def Let_def)

text \<open>The theorem at a concrete input.\<close>

theorem unknown_scancode_no_op_witness:
  "key_identity 0x02 False = 0 \<and> key_identity 0x1C True = 0
   \<and> handle_scancode 0x02 False False (ps2_init True) = ps2_init True
   \<and> handle_scancode 0x1C True True (ps2_init True) = ps2_init True"
proof -
  have a: "key_identity 0x02 False = 0" by code_simp
  have b: "key_identity 0x1C True = 0" by code_simp
  show ?thesis
    using a b unknown_scancode_no_op [OF a, of False "ps2_init True"]
      unknown_scancode_no_op [OF b, of True "ps2_init True"]
    by simp
qed

text \<open>
  \<^bold>\<open>C10\<close> (observer purity). The three getters return the state they were given
  together with the value they read, and \<^verbatim>\<open>ps2_clear_changed\<close> changes no field but
  \<open>g_state_changed\<close>, which it sets to false.
\<close>

theorem observers_pure:
  "ps2_get_modifiers s = (g_modifiers s, s)
   \<and> ps2_get_keys s = (g_keys s, s)
   \<and> ps2_state_changed s = (g_state_changed s, s)
   \<and> g_modifiers (ps2_clear_changed s) = g_modifiers s
   \<and> g_keys (ps2_clear_changed s) = g_keys s
   \<and> frame_bit_index (ps2_clear_changed s) = frame_bit_index s
   \<and> scancode_byte (ps2_clear_changed s) = scancode_byte s
   \<and> last_clk (ps2_clear_changed s) = last_clk s
   \<and> break_pending (ps2_clear_changed s) = break_pending s
   \<and> extended_pending (ps2_clear_changed s) = extended_pending s
   \<and> g_state_changed (ps2_clear_changed s) = False"
  by (simp add: ps2_get_modifiers_def ps2_get_keys_def ps2_state_changed_def
      ps2_clear_changed_def)

end
